theory Spec2Isabelle
  imports Main "HOL-Library.Multiset"
begin

section \<open>Regular expressions as the JavaScript engine runs them\<close>

text \<open>
  The repository does all of its text processing with regular-expression literals
  (\<^verbatim>\<open>ip-extractor.js\<close>, \<^verbatim>\<open>abuse-lookup.js\<close>).  The expressions are embedded as
  values of the datatype \<open>regex\<close>, one constructor per construct the source uses, and
  run by a backtracking matcher that returns every way a pattern can end, in the order
  in which a backtracking engine tries them: the head of the list is the match the
  engine reports.

  A matcher state is the text to the left of the current position (reversed, so its head
  is the previous character), the text still to read, and the content of capture group 1.
  Strings are lists of 8-bit characters, so the texts covered are those over the first
  256 code units.  The patterns of the program name ASCII characters only, and without
  the \<^verbatim>\<open>u\<close> flag a character outside ASCII is never equal to an ASCII one under \<^verbatim>\<open>/i\<close>,
  so case folding is written out for the letters A-Z only.
\<close>

type_synonym mstate = "string \<times> string \<times> string option"

datatype regex =
    Eps
  | Lit char
  | Cls "(int \<times> int) list"
  | Dot
  | Ws
  | Wb
  | Bol
  | Eol
  | Seq regex regex
  | Alt regex regex
  | Rep nat "nat option" bool regex
  | Grp regex

text \<open>The code of a character, computed four bits at a time.\<close>

fun nibble :: "bool \<Rightarrow> bool \<Rightarrow> bool \<Rightarrow> bool \<Rightarrow> int" where
  "nibble False False False False = 0"
| "nibble True False False False = 1"
| "nibble False True False False = 2"
| "nibble True True False False = 3"
| "nibble False False True False = 4"
| "nibble True False True False = 5"
| "nibble False True True False = 6"
| "nibble True True True False = 7"
| "nibble False False False True = 8"
| "nibble True False False True = 9"
| "nibble False True False True = 10"
| "nibble True True False True = 11"
| "nibble False False True True = 12"
| "nibble True False True True = 13"
| "nibble False True True True = 14"
| "nibble True True True True = 15"

fun code :: "char \<Rightarrow> int" where
  "code (Char b0 b1 b2 b3 b4 b5 b6 b7) = nibble b0 b1 b2 b3 + 16 * nibble b4 b5 b6 b7"

definition toUpper :: "char \<Rightarrow> char" where
  "toUpper c = (let n = code c in if 97 \<le> n \<and> n \<le> 122 then char_of (n - 32) else c)"

definition toLower :: "char \<Rightarrow> char" where
  "toLower c = (let n = code c in if 65 \<le> n \<and> n \<le> 90 then char_of (n + 32) else c)"

text \<open>
  A character class is kept as the list of its ranges of character codes; \<open>cls\<close> builds
  it from the ranges as the source writes them.  Under \<^verbatim>\<open>/i\<close> a character is in the
  class when it or its other-case form is.
\<close>

definition in_range :: "int \<Rightarrow> int \<times> int \<Rightarrow> bool" where
  "in_range n r = (fst r \<le> n \<and> n \<le> snd r)"

definition cls :: "(char \<times> char) list \<Rightarrow> regex" where
  "cls rs = Cls (map (\<lambda>r. (code (fst r), code (snd r))) rs)"

definition lit_ok :: "bool \<Rightarrow> char \<Rightarrow> char \<Rightarrow> bool" where
  "lit_ok ic c x = (if ic then toUpper x = toUpper c else x = c)"

definition cls_ok :: "bool \<Rightarrow> (int \<times> int) list \<Rightarrow> char \<Rightarrow> bool" where
  "cls_ok ic rs x =
     (if ic
      then (let n = code x; u = code (toUpper x); d = code (toLower x)
            in list_ex (\<lambda>r. in_range n r \<or> in_range u r \<or> in_range d r) rs)
      else (let n = code x in list_ex (in_range n) rs))"

text \<open>\<^verbatim>\<open>\w\<close> is \<^verbatim>\<open>[A-Za-z0-9_]\<close>; \<^verbatim>\<open>\s\<close> and the line terminators, as far as 8-bit characters go.\<close>

definition is_word :: "char \<Rightarrow> bool" where
  "is_word c = (let n = code c
     in (97 \<le> n \<and> n \<le> 122) \<or> (65 \<le> n \<and> n \<le> 90) \<or> (48 \<le> n \<and> n \<le> 57) \<or> n = 95)"

definition is_space :: "char \<Rightarrow> bool" where
  "is_space c = (let n = code c in (9 \<le> n \<and> n \<le> 13) \<or> n = 32 \<or> n = 160)"

definition is_newline :: "char \<Rightarrow> bool" where
  "is_newline c = (let n = code c in n = 10 \<or> n = 13)"

fun word_at :: "string \<Rightarrow> bool" where
  "word_at [] = False"
| "word_at (c # cs) = is_word c"

fun step :: "(char \<Rightarrow> bool) \<Rightarrow> mstate \<Rightarrow> mstate list" where
  "step p (l, [], cap) = []"
| "step p (l, x # xs, cap) = (if p x then [(x # l, xs, cap)] else [])"

fun assert :: "(string \<Rightarrow> string \<Rightarrow> bool) \<Rightarrow> mstate \<Rightarrow> mstate list" where
  "assert p (l, r, cap) = (if p l r then [(l, r, cap)] else [])"

fun remaining :: "mstate \<Rightarrow> nat" where
  "remaining (l, r, cap) = length r"

fun dec :: "nat option \<Rightarrow> nat option" where
  "dec None = None"
| "dec (Some k) = Some (k - 1)"

text \<open>
  Optional iterations of a quantifier (its minimum already met).  An iteration that reads
  nothing is rejected, as the engine's empty check does, so every further iteration
  shortens the remaining text and the counter, started above its length, is never the
  reason to stop.
\<close>

fun rep_opt ::
  "(mstate \<Rightarrow> mstate list) \<Rightarrow> nat option \<Rightarrow> bool \<Rightarrow> nat \<Rightarrow> mstate \<Rightarrow> mstate list" where
  "rep_opt f hi g 0 st = [st]"
| "rep_opt f hi g (Suc n) st =
     (if hi = Some 0 then [st]
      else let more = concat (map (rep_opt f (dec hi) g n)
                               (filter (\<lambda>st'. remaining st' < remaining st) (f st)))
           in if g then more @ [st] else st # more)"

fun rep_min ::
  "(mstate \<Rightarrow> mstate list) \<Rightarrow> nat \<Rightarrow> nat option \<Rightarrow> bool \<Rightarrow> mstate \<Rightarrow> mstate list" where
  "rep_min f 0 hi g st = rep_opt f hi g (Suc (remaining st)) st"
| "rep_min f (Suc lo) hi g st = concat (map (rep_min f lo (dec hi) g) (f st))"

fun capture :: "mstate \<Rightarrow> mstate \<Rightarrow> mstate" where
  "capture (l, r, cap) (l', r', cap') = (l', r', Some (rev (take (length l' - length l) l')))"

primrec rmatch :: "regex \<Rightarrow> bool \<Rightarrow> mstate \<Rightarrow> mstate list" where
  "rmatch Eps ic st = [st]"
| "rmatch (Lit c) ic st = step (lit_ok ic c) st"
| "rmatch (Cls rs) ic st = step (cls_ok ic rs) st"
| "rmatch Dot ic st = step (\<lambda>x. \<not> is_newline x) st"
| "rmatch Ws ic st = step is_space st"
| "rmatch Wb ic st = assert (\<lambda>l r. word_at l \<noteq> word_at r) st"
| "rmatch Bol ic st = assert (\<lambda>l r. l = []) st"
| "rmatch Eol ic st = assert (\<lambda>l r. r = []) st"
| "rmatch (Seq a b) ic st = concat (map (rmatch b ic) (rmatch a ic st))"
| "rmatch (Alt a b) ic st = rmatch a ic st @ rmatch b ic st"
| "rmatch (Rep lo hi g r) ic st = rep_min (rmatch r ic) lo hi g st"
| "rmatch (Grp r) ic st = map (capture st) (rmatch r ic st)"

text \<open>Pattern syntax: sequences, alternatives, literal text and the quantifiers.\<close>

fun seqs :: "regex list \<Rightarrow> regex" where
  "seqs [] = Eps"
| "seqs [r] = r"
| "seqs (r # rs) = Seq r (seqs rs)"

fun alts :: "regex list \<Rightarrow> regex" where
  "alts [] = Eps"
| "alts [r] = r"
| "alts (r # rs) = Alt r (alts rs)"

definition str :: "string \<Rightarrow> regex" where
  "str s = seqs (map Lit s)"

definition Opt :: "regex \<Rightarrow> regex" where
  "Opt r = Rep 0 (Some 1) True r"

definition Star :: "regex \<Rightarrow> regex" where
  "Star r = Rep 0 None True r"

definition Plus :: "regex \<Rightarrow> regex" where
  "Plus r = Rep 1 None True r"

definition LazyStar :: "regex \<Rightarrow> regex" where
  "LazyStar r = Rep 0 None False r"

definition Times :: "nat \<Rightarrow> nat \<Rightarrow> regex \<Rightarrow> regex" where
  "Times lo hi r = Rep lo (Some hi) True r"

text \<open>
  \<^verbatim>\<open>RegExp.prototype.exec\<close> from a position: the first way the pattern ends there.
  \<open>search\<close> moves the start to the right until a match is found (the leftmost match);
  it returns the match's start context and end state.
\<close>

definition exec_at :: "regex \<Rightarrow> bool \<Rightarrow> string \<Rightarrow> string \<Rightarrow> mstate option" where
  "exec_at r ic l s = (case rmatch r ic (l, s, None) of [] \<Rightarrow> None | st # _ \<Rightarrow> Some st)"

fun search :: "regex \<Rightarrow> bool \<Rightarrow> string \<Rightarrow> string \<Rightarrow> mstate option" where
  "search r ic l [] = exec_at r ic l []"
| "search r ic l (x # xs) =
     (case exec_at r ic l (x # xs) of
        None \<Rightarrow> search r ic (x # l) xs
      | Some st \<Rightarrow> Some st)"

text \<open>\<^verbatim>\<open>regex.test(s)\<close> and the capture group 1 of \<^verbatim>\<open>s.match(regex)\<close> (no \<^verbatim>\<open>g\<close> flag).\<close>

definition test :: "regex \<Rightarrow> bool \<Rightarrow> string \<Rightarrow> bool" where
  "test r ic s = (search r ic [] s \<noteq> None)"

definition match1 :: "regex \<Rightarrow> bool \<Rightarrow> string \<Rightarrow> string option" where
  "match1 r ic s = (case search r ic [] s of None \<Rightarrow> None | Some (l, rest, cap) \<Rightarrow> cap)"

text \<open>
  \<^verbatim>\<open>s.match(regex)\<close> with the \<^verbatim>\<open>g\<close> flag: every match from left to right, the next
  search starting where the last match ended (one character further after an empty
  match).  \<open>skip\<close> counts the characters of the last match that are still to pass.
\<close>

fun matched :: "string \<Rightarrow> mstate \<Rightarrow> string" where
  "matched l (l', r', cap) = rev (take (length l' - length l) l')"

fun match_all :: "regex \<Rightarrow> bool \<Rightarrow> nat \<Rightarrow> string \<Rightarrow> string \<Rightarrow> string list" where
  "match_all r ic skip l [] =
     (if 0 < skip then []
      else case exec_at r ic l [] of None \<Rightarrow> [] | Some st \<Rightarrow> [matched l st])"
| "match_all r ic skip l (x # xs) =
     (if 0 < skip then match_all r ic (skip - 1) (x # l) xs
      else case exec_at r ic l (x # xs) of
             None \<Rightarrow> match_all r ic 0 (x # l) xs
           | Some st \<Rightarrow> matched l st # match_all r ic (length (matched l st) - 1) (x # l) xs)"

definition match_g :: "regex \<Rightarrow> bool \<Rightarrow> string \<Rightarrow> string list" where
  "match_g r ic s = match_all r ic 0 [] s"

section \<open>ip-extractor.js\<close>

definition digit :: regex where
  "digit = cls [(CHR ''0'', CHR ''9'')]"

text \<open>\<^verbatim>\<open>(?:25[0-5]|2[0-4][0-9]|[01]?[0-9][0-9]?)\<close>\<close>

definition octet :: regex where
  "octet = alts
     [seqs [str ''25'', cls [(CHR ''0'', CHR ''5'')]],
      seqs [Lit CHR ''2'', cls [(CHR ''0'', CHR ''4'')], digit],
      seqs [Opt (cls [(CHR ''0'', CHR ''1'')]), digit, Opt digit]]"

text \<open>\<^verbatim>\<open>/\b(?:(?:25[0-5]|2[0-4][0-9]|[01]?[0-9][0-9]?)\.){3}(?:25[0-5]|2[0-4][0-9]|[01]?[0-9][0-9]?)\b/g\<close>\<close>

definition IPV4_REGEX :: regex where
  "IPV4_REGEX = seqs [Wb, Times 3 3 (Seq octet (Lit CHR ''.'')), octet, Wb]"

text \<open>\<^verbatim>\<open>[0-9a-fA-F]{1,4}\<close>, then followed by a colon, then preceded by one.\<close>

definition h4 :: regex where
  "h4 = Times 1 4 (cls [(CHR ''0'', CHR ''9''), (CHR ''a'', CHR ''f''), (CHR ''A'', CHR ''F'')])"

definition h4c :: regex where
  "h4c = Seq h4 (Lit CHR '':'')"

definition ch4 :: regex where
  "ch4 = Seq (Lit CHR '':'') h4"

text \<open>The ten alternatives of \<^verbatim>\<open>IPV6_REGEX\<close>, in the order of the source.\<close>

definition IPV6_REGEX :: regex where
  "IPV6_REGEX = alts
     [seqs [Wb, Times 7 7 h4c, h4, Wb],
      seqs [Wb, Times 1 7 h4c, Lit CHR '':'', Wb],
      seqs [Wb, Times 1 6 h4c, Lit CHR '':'', h4, Wb],
      seqs [Wb, Times 1 5 h4c, Times 1 2 ch4, Wb],
      seqs [Wb, Times 1 4 h4c, Times 1 3 ch4, Wb],
      seqs [Wb, Times 1 3 h4c, Times 1 4 ch4, Wb],
      seqs [Wb, Times 1 2 h4c, Times 1 5 ch4, Wb],
      seqs [Wb, h4, Lit CHR '':'', Times 1 6 ch4, Wb],
      seqs [Wb, Lit CHR '':'', Times 1 7 ch4, Wb],
      seqs [Wb, str ''::'',
            Opt (Seq (Times 4 4 (cls [(CHR ''f'', CHR ''f''), (CHR ''F'', CHR ''F'')])) (Lit CHR '':'')),
            Times 3 3 (Seq octet (Lit CHR ''.'')), octet, Wb]]"

definition extractIPs :: "string \<Rightarrow> string list" where
  "extractIPs line =
     (let ipv4Matches = match_g IPV4_REGEX False line;
          ipv6Matches = match_g IPV6_REGEX False line
      in ipv4Matches @ ipv6Matches)"

text \<open>The IPv4 table of \<^verbatim>\<open>isPrivateIP\<close> (no flag), then its IPv6 table (flag \<^verbatim>\<open>i\<close>).\<close>

definition privateRanges :: "regex list" where
  "privateRanges =
     [seqs [Bol, str ''10'', Lit CHR ''.''],
      seqs [Bol, str ''172'', Lit CHR ''.'',
            Grp (alts [seqs [Lit CHR ''1'', cls [(CHR ''6'', CHR ''9'')]],
                       seqs [Lit CHR ''2'', digit],
                       seqs [Lit CHR ''3'', cls [(CHR ''0'', CHR ''1'')]]]),
            Lit CHR ''.''],
      seqs [Bol, str ''192'', Lit CHR ''.'', str ''168'', Lit CHR ''.''],
      seqs [Bol, str ''127'', Lit CHR ''.''],
      seqs [Bol, str ''169'', Lit CHR ''.'', str ''254'', Lit CHR ''.''],
      seqs [Bol, Lit CHR ''0'', Lit CHR ''.''],
      seqs [Bol, str ''100'', Lit CHR ''.'',
            Grp (alts [seqs [Lit CHR ''6'', cls [(CHR ''4'', CHR ''9'')]],
                       seqs [cls [(CHR ''7'', CHR ''9'')], digit],
                       seqs [Lit CHR ''1'', cls [(CHR ''0'', CHR ''1'')], digit],
                       seqs [str ''12'', cls [(CHR ''0'', CHR ''7'')]]]),
            Lit CHR ''.'']]"

definition ipv6Private :: "regex list" where
  "ipv6Private =
     [seqs [Bol, str ''::1'', Eol],
      seqs [Bol, str ''fe80:''],
      seqs [Bol, str ''fc00:''],
      seqs [Bol, str ''fd'', Times 2 2 (cls [(CHR ''0'', CHR ''9''), (CHR ''a'', CHR ''f'')]),
            Lit CHR '':'']]"

definition isPrivateIP :: "string \<Rightarrow> bool" where
  "isPrivateIP ip =
     (if list_ex (\<lambda>range. test range False ip) privateRanges then True
      else if list_ex (\<lambda>pattern. test pattern True ip) ipv6Private then True
      else False)"


subsection \<open>JavaScript \<^verbatim>\<open>Map\<close> objects\<close>

text \<open>
  A \<^verbatim>\<open>Map\<close> iterates in insertion order, and \<^verbatim>\<open>set\<close> on a key that is present keeps
  the key's position: an association list with \<open>map_set\<close> writing in place.
\<close>

definition map_has :: "('k \<times> 'v) list \<Rightarrow> 'k \<Rightarrow> bool" where
  "map_has m k = (map_of m k \<noteq> None)"

definition map_get :: "('k \<times> 'v) list \<Rightarrow> 'k \<Rightarrow> 'v option" where
  "map_get m k = map_of m k"

fun map_set :: "('k \<times> 'v) list \<Rightarrow> 'k \<Rightarrow> 'v \<Rightarrow> ('k \<times> 'v) list" where
  "map_set [] k v = [(k, v)]"
| "map_set ((k', v') # m) k v = (if k' = k then (k', v) # m else (k', v') # map_set m k v)"

text \<open>
  Both grouping loops of the repository end with the same three statements,
  \<^verbatim>\<open>if (!m.has(k)) m.set(k, []); m.get(k).push(x);\<close>.  The array is always there when
  \<^verbatim>\<open>get\<close> is called, so the branch \<open>None\<close> (a \<^verbatim>\<open>TypeError\<close> in the source) is never taken.
\<close>

definition map_push :: "('k \<times> 'v list) list \<Rightarrow> 'k \<Rightarrow> 'v \<Rightarrow> ('k \<times> 'v list) list" where
  "map_push m k x =
     (let m1 = (if \<not> map_has m k then map_set m k [] else m)
      in case map_get m1 k of
           Some entries \<Rightarrow> map_set m1 k (entries @ [x])
         | None \<Rightarrow> m1)"

subsection \<open>\<^verbatim>\<open>buildIPLogMap\<close>\<close>

definition scan_line ::
  "(string \<times> string list) list \<Rightarrow> string \<Rightarrow> (string \<times> string list) list" where
  "scan_line ipLogMap line =
     foldl (\<lambda>m a. if isPrivateIP a then m else map_push m a line) ipLogMap (extractIPs line)"

definition buildIPLogMap :: "string list \<Rightarrow> (string \<times> string list) list" where
  "buildIPLogMap lines = foldl scan_line [] lines"

section \<open>abuse-lookup.js\<close>

subsection \<open>The parsers of WHOIS output\<close>

text \<open>\<^verbatim>\<open>([a-zA-Z0-9._%+-]+@[a-zA-Z0-9.-]+\.[a-zA-Z]{2,})\<close>, the capture group of all five patterns.\<close>

definition letters :: "(char \<times> char) list" where
  "letters = [(CHR ''a'', CHR ''z''), (CHR ''A'', CHR ''Z'')]"

definition alnum :: "(char \<times> char) list" where
  "alnum = letters @ [(CHR ''0'', CHR ''9'')]"

definition one :: "char \<Rightarrow> char \<times> char" where
  "one c = (c, c)"

definition EMAIL_BODY :: regex where
  "EMAIL_BODY = seqs
     [Plus (cls (alnum @ [one CHR ''.'', one CHR ''_'', one CHR ''%'', one CHR ''+'', one CHR ''-''])),
      Lit CHR ''@'',
      Plus (cls (alnum @ [one CHR ''.'', one CHR ''-''])),
      Lit CHR ''.'',
      Rep 2 None True (cls letters)]"

definition EMAIL :: regex where
  "EMAIL = Grp EMAIL_BODY"

definition abusePatterns :: "regex list" where
  "abusePatterns =
     [seqs [str ''abuse'', LazyStar Dot, EMAIL],
      seqs [str ''OrgAbuseEmail:'', Star Ws, EMAIL],
      seqs [str ''RAbuseEmail:'', Star Ws, EMAIL],
      seqs [str ''abuse-mailbox:'', Star Ws, EMAIL],
      seqs [str ''% Abuse contact for '', Star Dot, str '' is '', Lit (CHR 0x27), EMAIL, Lit (CHR 0x27)]]"

text \<open>\<^verbatim>\<open>s.split('\n')\<close>: never empty, one more piece than there are newlines.\<close>

fun split_on :: "char \<Rightarrow> string \<Rightarrow> string list" where
  "split_on sep [] = [[]]"
| "split_on sep (c # cs) =
     (if c = sep then [] # split_on sep cs
      else case split_on sep cs of
             w # ws \<Rightarrow> (c # w) # ws
           | [] \<Rightarrow> [[c]])"

text \<open>
  The loop \<^verbatim>\<open>for (const pattern of patterns) { const match = text.match(pattern);
  if (match && match[1]) return ... }\<close> shared by the four parsers: the first pattern
  that matches with a non-empty group 1 gives the result.  All patterns carry \<^verbatim>\<open>/i\<close>.
\<close>

fun first_capture :: "regex list \<Rightarrow> string \<Rightarrow> string option" where
  "first_capture [] s = None"
| "first_capture (pattern # patterns) s =
     (case match1 pattern True s of
        Some c \<Rightarrow> if c \<noteq> [] then Some c else first_capture patterns s
      | None \<Rightarrow> first_capture patterns s)"

fun first_line_capture :: "regex list \<Rightarrow> string list \<Rightarrow> string option" where
  "first_line_capture patterns [] = None"
| "first_line_capture patterns (line # lines) =
     (case first_capture patterns line of
        Some c \<Rightarrow> Some c
      | None \<Rightarrow> first_line_capture patterns lines)"

definition extractAbuseEmail :: "string \<Rightarrow> string option" where
  "extractAbuseEmail whoisOutput =
     (case first_line_capture abusePatterns (split_on (CHR 0x0A) whoisOutput) of
        Some c \<Rightarrow> Some (map toLower c)
      | None \<Rightarrow> None)"

text \<open>\<^verbatim>\<open>String.prototype.trim\<close>\<close>

definition trim :: "string \<Rightarrow> string" where
  "trim s = rev (dropWhile is_space (rev (dropWhile is_space s)))"

definition field_rest :: "string \<Rightarrow> regex" where
  "field_rest name = seqs [str name, Star Ws, Grp (Plus Dot)]"

definition extractOrgName :: "string \<Rightarrow> string" where
  "extractOrgName whoisOutput =
     (case first_capture
             [field_rest ''OrgName:'', field_rest ''org-name:'', field_rest ''Organization:'',
              field_rest ''netname:'', field_rest ''descr:''] whoisOutput of
        Some c \<Rightarrow> trim c
      | None \<Rightarrow> ''Unknown'')"

definition extractNetRange :: "string \<Rightarrow> string option" where
  "extractNetRange whoisOutput =
     (case first_capture
             [field_rest ''NetRange:'', field_rest ''inetnum:'', field_rest ''CIDR:''] whoisOutput of
        Some c \<Rightarrow> Some (trim c)
      | None \<Rightarrow> None)"

definition extractCountry :: "string \<Rightarrow> string option" where
  "extractCountry whoisOutput =
     (case first_capture
             [seqs [str ''Country:'', Star Ws, Grp (Times 2 2 (cls [(CHR ''A'', CHR ''Z'')]))],
              seqs [str ''country:'', Star Ws, Grp (Times 2 2 (cls [(CHR ''A'', CHR ''Z'')]))]]
             whoisOutput of
        Some c \<Rightarrow> Some (map toUpper c)
      | None \<Rightarrow> None)"

subsection \<open>The lookup cache and the rate limiter\<close>

text \<open>
  The object \<^verbatim>\<open>lookupIP\<close> builds.  \<^verbatim>\<open>orgName\<close> is optional because the callers of the
  grouping and reporting functions (the tests among them) pass objects without it;
  \<^verbatim>\<open>lookupIP\<close> always sets it.
\<close>

record whoisInfo =
  ip :: string
  abuseEmail :: "string option"
  orgName :: "string option"
  netRange :: "string option"
  country :: "string option"
  rawWhois :: "string option"
  error :: "string option"

text \<open>
  What the module does to the outside, in order: a call of the progress callback with its
  three arguments, a timer of the rate limiter with the delay asked for, the dispatch of
  a \<^verbatim>\<open>whois\<close> process with the time of dispatch, and its completion.
\<close>

datatype event =
    Progress string nat nat
  | Sleep int
  | Issue string int
  | Complete string int

text \<open>
  The outside world: what \<^verbatim>\<open>whois\<close> answers for an address dispatched at a time
  (\<open>Inr\<close> its standard output, \<open>Inl\<close> the message of the error \<^verbatim>\<open>execAsync\<close> rejects
  with: a timeout after 30 s, a non-zero exit, an I/O error), how many milliseconds the
  process takes, and how many milliseconds later than asked a timer fires.
\<close>

record world =
  whois :: "string \<Rightarrow> int \<Rightarrow> string + string"
  whois_ms :: "string \<Rightarrow> int \<Rightarrow> nat"
  timer_late :: "int \<Rightarrow> int \<Rightarrow> nat"

text \<open>
  The module's variables \<^verbatim>\<open>whoisCache\<close> and \<^verbatim>\<open>lastWhoisQuery\<close>, the clock
  \<^verbatim>\<open>Date.now()\<close> reads, and the events so far.
\<close>

record state =
  whoisCache :: "(string \<times> whoisInfo) list"
  lastWhoisQuery :: int
  now :: int
  events :: "event list"

definition WHOIS_DELAY :: int where
  "WHOIS_DELAY = 1000"

definition initial :: "int \<Rightarrow> state" where
  "initial t = \<lparr>whoisCache = [], lastWhoisQuery = 0, now = t, events = []\<rparr>"

definition rateLimitDelay :: "world \<Rightarrow> state \<Rightarrow> state" where
  "rateLimitDelay w s =
     (let elapsed = now s - lastWhoisQuery s;
          s1 = (if elapsed < WHOIS_DELAY
                then s\<lparr>now := now s + (WHOIS_DELAY - elapsed)
                              + int (timer_late w (now s) (WHOIS_DELAY - elapsed)),
                       events := events s @ [Sleep (WHOIS_DELAY - elapsed)]\<rparr>
                else s)
      in s1\<lparr>lastWhoisQuery := now s1\<rparr>)"

text \<open>The two objects of \<^verbatim>\<open>lookupIP\<close>: the one of the \<^verbatim>\<open>try\<close> block and the one of \<^verbatim>\<open>catch\<close>.\<close>

definition parsed :: "string \<Rightarrow> string \<Rightarrow> whoisInfo" where
  "parsed a stdout =
     \<lparr>ip = a,
      abuseEmail = extractAbuseEmail stdout,
      orgName = Some (extractOrgName stdout),
      netRange = extractNetRange stdout,
      country = extractCountry stdout,
      rawWhois = Some stdout,
      error = None\<rparr>"

definition failed :: "string \<Rightarrow> string \<Rightarrow> whoisInfo" where
  "failed a message =
     \<lparr>ip = a,
      abuseEmail = None,
      orgName = Some ''Unknown'',
      netRange = None,
      country = None,
      rawWhois = None,
      error = Some message\<rparr>"

definition lookupIP :: "world \<Rightarrow> string \<Rightarrow> state \<Rightarrow> whoisInfo \<times> state" where
  "lookupIP w a s =
     (case map_get (whoisCache s) a of
        Some info \<Rightarrow> (info, s)
      | None \<Rightarrow>
          (let s1 = rateLimitDelay w s;
               t = now s1;
               s2 = s1\<lparr>events := events s1 @ [Issue a t]\<rparr>;
               t' = t + int (whois_ms w a t);
               s3 = s2\<lparr>now := t', events := events s2 @ [Complete a t']\<rparr>;
               result = (case whois w a t of
                           Inr stdout \<Rightarrow> parsed a stdout
                         | Inl message \<Rightarrow> failed a message)
           in (result, s3\<lparr>whoisCache := map_set (whoisCache s3) a result\<rparr>)))"

text \<open>
  \<^verbatim>\<open>lookupIPs\<close>: the loop over the addresses from index \<open>i\<close> on, with the results so far.
  \<open>onProgress\<close> tells whether a callback was passed; its call is recorded as an event.
\<close>

fun lookup_loop ::
  "world \<Rightarrow> bool \<Rightarrow> nat \<Rightarrow> nat \<Rightarrow> string list \<Rightarrow> (string \<times> whoisInfo) list \<Rightarrow> state
     \<Rightarrow> (string \<times> whoisInfo) list \<times> state" where
  "lookup_loop w onProgress ntotal i [] results s = (results, s)"
| "lookup_loop w onProgress ntotal i (a # ips) results s =
     (let s1 = (if onProgress then s\<lparr>events := events s @ [Progress a (i + 1) ntotal]\<rparr> else s);
          (info, s2) = lookupIP w a s1
      in lookup_loop w onProgress ntotal (i + 1) ips (map_set results a info) s2)"

definition lookupIPs ::
  "world \<Rightarrow> string list \<Rightarrow> bool \<Rightarrow> state \<Rightarrow> (string \<times> whoisInfo) list \<times> state" where
  "lookupIPs w ips onProgress s = lookup_loop w onProgress (length ips) 0 ips [] s"

subsection \<open>\<^verbatim>\<open>groupByAbuseEmail\<close>\<close>

definition unknown :: string where
  "unknown = ''unknown@unknown''"

text \<open>\<^verbatim>\<open>info.abuseEmail || 'unknown@unknown'\<close>: \<^verbatim>\<open>null\<close> and the empty string are falsy.\<close>

definition group_key :: "whoisInfo \<Rightarrow> string" where
  "group_key info =
     (case abuseEmail info of
        None \<Rightarrow> unknown
      | Some email \<Rightarrow> if email = [] then unknown else email)"

definition groupByAbuseEmail :: "(string \<times> whoisInfo) list \<Rightarrow> (string \<times> whoisInfo list) list" where
  "groupByAbuseEmail whoisResults =
     foldl (\<lambda>groups (a, info). map_push groups (group_key info) info) [] whoisResults"


section \<open>email-generator.js\<close>

text \<open>
  The message object of \<^verbatim>\<open>generateEmail\<close>, its keys prefixed with \<open>mail_\<close>
  (\<^verbatim>\<open>from\<close> is a keyword here).  The options are absent when the caller leaves them
  out, and then the defaults of the destructuring patterns apply.
\<close>

record email =
  mail_to :: string
  mail_from :: string
  mail_subject :: string
  mail_body :: string
  mail_ips :: "string list"
  mail_generatedAt :: string

record options =
  senderEmail :: "string option"
  senderName :: "string option"
  senderOrg :: "string option"
  maxLogsPerIP :: "int option"

definition dflt :: "'a option \<Rightarrow> 'a \<Rightarrow> 'a" where
  "dflt v d = (case v of None \<Rightarrow> d | Some x \<Rightarrow> x)"

text \<open>A string in a condition: \<^verbatim>\<open>undefined\<close>, \<^verbatim>\<open>null\<close> and the empty string are falsy.\<close>

definition truthy :: "string option \<Rightarrow> bool" where
  "truthy v = (case v of None \<Rightarrow> False | Some x \<Rightarrow> x \<noteq> [])"

fun join :: "string \<Rightarrow> string list \<Rightarrow> string" where
  "join sep [] = []"
| "join sep [x] = x"
| "join sep (x # xs) = x @ sep @ join sep xs"

definition digit_char :: "nat \<Rightarrow> char" where
  "digit_char d = char_of (48 + d)"

fun show_nat :: "nat \<Rightarrow> string" where
  "show_nat n = (if n < 10 then [digit_char n] else show_nat (n div 10) @ [digit_char (n mod 10)])"

definition generateSubject :: "whoisInfo list \<Rightarrow> string" where
  "generateSubject ipInfos =
     (let ipCount = length ipInfos;
          org = (case ipInfos of
                   [] \<Rightarrow> ''your network''
                 | info # _ \<Rightarrow> if truthy (orgName info) then dflt (orgName info) [] else ''your network'')
      in case ipInfos of
           [info] \<Rightarrow> ''Abuse Report: Malicious activity from '' @ ip info
         | _ \<Rightarrow> ''Abuse Report: Malicious activity from '' @ show_nat ipCount @ '' IPs in '' @ org)"

text \<open>\<^verbatim>\<open>logs.slice(0, maxLogsPerIP)\<close>: a negative end counts from the end of the array.\<close>

definition slice0 :: "'a list \<Rightarrow> int \<Rightarrow> 'a list" where
  "slice0 xs k = (if k < 0 then take (nat (int (length xs) + k)) xs else take (nat k) xs)"

definition info_block :: "whoisInfo \<Rightarrow> (string \<times> string list) list \<Rightarrow> int \<Rightarrow> string list" where
  "info_block info ipLogMap maxLogs =
     [replicate 70 CHR ''-'', ''IP Address: '' @ ip info]
     @ (if truthy (netRange info) then [''Network Range: '' @ dflt (netRange info) []] else [])
     @ (if truthy (country info) then [''Country: '' @ dflt (country info) []] else [])
     @ (if truthy (orgName info) \<and> orgName info \<noteq> Some ''Unknown''
        then [''Organization: '' @ dflt (orgName info) []] else [])
     @ [[]]
     @ (let logs = dflt (map_get ipLogMap (ip info)) [];
            displayLogs = slice0 logs maxLogs
        in if 0 < length displayLogs
           then [''Relevant log entries:'', []]
                @ map (\<lambda>log. ''  '' @ log) displayLogs
                @ (if maxLogs < int (length logs)
                   then [''  ... and '' @ show_nat (nat (int (length logs) - maxLogs)) @ '' more entries'']
                   else [])
                @ [[]]
           else [])"

definition generateBody ::
  "whoisInfo list \<Rightarrow> (string \<times> string list) list \<Rightarrow> options \<Rightarrow> string \<Rightarrow> string" where
  "generateBody ipInfos ipLogMap opts date =
     (let org = dflt (senderOrg opts) ''System Administrator'';
          maxLogs = dflt (maxLogsPerIP opts) 50
      in join [CHR 0x0A]
           ([''Dear Abuse Team,'', [],
             ''We have detected malicious activity originating from IP address(es) under your administration.'',
             ''We kindly request that you investigate this matter and take appropriate action.'',
             [], replicate 70 CHR ''='', ''INCIDENT DETAILS'', replicate 70 CHR ''='', [],
             ''Report generated: '' @ date,
             ''Number of offending IPs: '' @ show_nat (length ipInfos), []]
            @ concat (map (\<lambda>info. info_block info ipLogMap maxLogs) ipInfos)
            @ [replicate 70 CHR ''='', [],
               ''Please take appropriate action to address this issue. If you require'',
               ''additional information or log samples, please do not hesitate to contact us.'',
               [], ''Thank you for your cooperation in maintaining a safe internet environment.'',
               [], ''Best regards,'', org]))"

text \<open>
  \<^verbatim>\<open>generateEmail\<close> reads the clock twice, for \<^verbatim>\<open>toUTCString()\<close> in the body and for
  \<^verbatim>\<open>toISOString()\<close>; the two texts are its last argument.
\<close>

definition generateEmail ::
  "string \<Rightarrow> whoisInfo list \<Rightarrow> (string \<times> string list) list \<Rightarrow> options \<Rightarrow> string \<times> string
     \<Rightarrow> email" where
  "generateEmail abuse ipInfos ipLogMap opts dates =
     \<lparr>mail_to = abuse,
      mail_from = dflt (senderName opts) ''Abuse Reporter'' @ '' <''
                  @ dflt (senderEmail opts) ''abuse@example.com'' @ ''>'',
      mail_subject = generateSubject ipInfos,
      mail_body = generateBody ipInfos ipLogMap opts (fst dates),
      mail_ips = map ip ipInfos,
      mail_generatedAt = snd dates\<rparr>"

text \<open>\<^verbatim>\<open>generateAllEmails\<close>; \<open>clock k\<close> is what the clock reads for the k-th message built.\<close>

fun emails_loop ::
  "(string \<times> whoisInfo list) list \<Rightarrow> (string \<times> string list) list \<Rightarrow> options
     \<Rightarrow> (nat \<Rightarrow> string \<times> string) \<Rightarrow> nat \<Rightarrow> email list" where
  "emails_loop [] ipLogMap opts clock k = []"
| "emails_loop ((abuse, ipInfos) # groups) ipLogMap opts clock k =
     (if abuse = ''unknown@unknown'' then emails_loop groups ipLogMap opts clock k
      else generateEmail abuse ipInfos ipLogMap opts (clock k)
           # emails_loop groups ipLogMap opts clock (k + 1))"

definition generateAllEmails ::
  "(string \<times> whoisInfo list) list \<Rightarrow> (string \<times> string list) list \<Rightarrow> options
     \<Rightarrow> (nat \<Rightarrow> string \<times> string) \<Rightarrow> email list" where
  "generateAllEmails abuseGroups ipLogMap opts clock = emails_loop abuseGroups ipLogMap opts clock 0"

definition unknown_lines :: "whoisInfo \<Rightarrow> string list" where
  "unknown_lines info =
     [''  '' @ ip info]
     @ (if truthy (orgName info) \<and> orgName info \<noteq> Some ''Unknown''
        then [''    Organization: '' @ dflt (orgName info) []] else [])
     @ (if truthy (error info) then [''    Error: '' @ dflt (error info) []] else [])"

definition summary_lines :: "whoisInfo list \<Rightarrow> string list" where
  "summary_lines unknownGroup =
     [replicate 78 CHR ''='', ''IPs WITHOUT ABUSE CONTACT INFORMATION'', replicate 78 CHR ''='', [],
      ''The following IPs could not be matched to an abuse contact:'', []]
     @ concat (map unknown_lines unknownGroup)
     @ [[], ''You may need to manually look up abuse contacts for these IPs.'', []]"

definition generateUnknownIPsSummary :: "(string \<times> whoisInfo list) list \<Rightarrow> string option" where
  "generateUnknownIPsSummary abuseGroups =
     (case map_get abuseGroups ''unknown@unknown'' of
        None \<Rightarrow> None
      | Some unknownGroup \<Rightarrow>
          if length unknownGroup = 0 then None
          else Some (join [CHR 0x0A] (summary_lines unknownGroup)))"

section \<open>Observations used in the statements\<close>

text \<open>
  The entry of a key in a map of arrays (empty when the key is absent), and maps none of
  whose arrays is empty.
\<close>

definition entries_of :: "('k \<times> 'v list) list \<Rightarrow> 'k \<Rightarrow> 'v list" where
  "entries_of m k = (case map_of m k of None \<Rightarrow> [] | Some l \<Rightarrow> l)"

definition no_empty :: "('k \<times> 'v list) list \<Rightarrow> bool" where
  "no_empty m = (\<forall>k. map_of m k \<noteq> Some [])"

text \<open>
  What an address's entry of the Log Index holds: each line once for every time
  \<^verbatim>\<open>extractIPs\<close> reports the address in it, in the order of the lines.
\<close>

definition mentions :: "string list \<Rightarrow> string \<Rightarrow> string list" where
  "mentions lines a =
     concat (map (\<lambda>line. replicate (count_list (extractIPs line) a) line) lines)"

text \<open>
  Reading a trace of events: the queries dispatched, with their times; whether each time
  is at least 1000 ms after the one before (starting from a given time); whether no
  query is dispatched, no timer set and no callback called while a query is running.
\<close>

fun issued :: "event list \<Rightarrow> (string \<times> int) list" where
  "issued [] = []"
| "issued (Issue a t # es) = (a, t) # issued es"
| "issued (e # es) = issued es"


fun one_at_a_time :: "string option \<Rightarrow> event list \<Rightarrow> bool" where
  "one_at_a_time running [] = (running = None)"
| "one_at_a_time running (Issue a t # es) = (running = None \<and> one_at_a_time (Some a) es)"
| "one_at_a_time running (Complete a t # es) = (running = Some a \<and> one_at_a_time None es)"
| "one_at_a_time running (Sleep d # es) = (running = None \<and> one_at_a_time None es)"
| "one_at_a_time running (Progress a i n # es) = (running = None \<and> one_at_a_time None es)"

text \<open>Whether an event is one a lookup of the given address can produce.\<close>

fun of_lookup :: "string \<Rightarrow> event \<Rightarrow> bool" where
  "of_lookup a (Progress b i n) = False"
| "of_lookup a (Sleep d) = True"
| "of_lookup a (Issue b t) = (b = a)"
| "of_lookup a (Complete b t) = (b = a)"

text \<open>
  The order the specification words for the progress callback: when it is called for an
  address, a query for that address has been dispatched before.
\<close>

fun progress_after_dispatch :: "string list \<Rightarrow> event list \<Rightarrow> bool" where
  "progress_after_dispatch seen [] = True"
| "progress_after_dispatch seen (Issue a t # es) = progress_after_dispatch (a # seen) es"
| "progress_after_dispatch seen (Progress a i n # es) =
     (a \<in> set seen \<and> progress_after_dispatch seen es)"
| "progress_after_dispatch seen (e # es) = progress_after_dispatch seen es"

text \<open>
  The timer \<^verbatim>\<open>rateLimitDelay\<close> sets in a state, the object \<^verbatim>\<open>lookupIP\<close> builds from
  what \<^verbatim>\<open>whois\<close> answers, and a run of lookups one after the other.
\<close>

definition wait_events :: "state \<Rightarrow> event list" where
  "wait_events s =
     (if now s - lastWhoisQuery s < 1000 then [Sleep (1000 - (now s - lastWhoisQuery s))] else [])"

definition result_of :: "world \<Rightarrow> string \<Rightarrow> int \<Rightarrow> whoisInfo" where
  "result_of w a t = (case whois w a t of Inr stdout \<Rightarrow> parsed a stdout | Inl message \<Rightarrow> failed a message)"

definition lookups :: "world \<Rightarrow> string list \<Rightarrow> state \<Rightarrow> state" where
  "lookups w bs s = foldl (\<lambda>s b. snd (lookupIP w b s)) s bs"

text \<open>
  A world for the examples: \<^verbatim>\<open>whois\<close> answers for 8.8.8.8 and fails for every other
  address, a query takes 40 ms and a timer fires 2 ms late.
\<close>

definition sample_world :: world where
  "sample_world =
     \<lparr>whois = (\<lambda>a t. if a = ''8.8.8.8'' then Inr ''abuse: a@b.cd'' else Inl ''timeout''),
      whois_ms = (\<lambda>a t. 40),
      timer_late = (\<lambda>t d. 2)\<rparr>"

text \<open>
  The language of a pattern, where the assertions read nothing: every text the matcher
  reads for a pattern is in it (the matcher is sound for it).  \<open>group_bodies\<close> lists the
  bodies of a pattern's capture groups; \<open>advance st u st'\<close> says that the matcher went from
  \<open>st\<close> to \<open>st'\<close> by reading \<open>u\<close>.
\<close>

primrec lang :: "regex \<Rightarrow> bool \<Rightarrow> string set" where
  "lang Eps ic = {[]}"
| "lang (Lit c) ic = {[x] |x. lit_ok ic c x}"
| "lang (Cls rs) ic = {[x] |x. cls_ok ic rs x}"
| "lang Dot ic = {[x] |x. \<not> is_newline x}"
| "lang Ws ic = {[x] |x. is_space x}"
| "lang Wb ic = {[]}"
| "lang Bol ic = {[]}"
| "lang Eol ic = {[]}"
| "lang (Seq a b) ic = {u @ v |u v. u \<in> lang a ic \<and> v \<in> lang b ic}"
| "lang (Alt a b) ic = lang a ic \<union> lang b ic"
| "lang (Rep lo hi g r) ic =
     {concat ws |ws. set ws \<subseteq> lang r ic \<and> lo \<le> length ws
                     \<and> (\<forall>h. hi = Some h \<and> lo \<le> h \<longrightarrow> length ws \<le> h)}"
| "lang (Grp r) ic = lang r ic"

primrec group_bodies :: "regex \<Rightarrow> regex list" where
  "group_bodies Eps = []"
| "group_bodies (Lit c) = []"
| "group_bodies (Cls rs) = []"
| "group_bodies Dot = []"
| "group_bodies Ws = []"
| "group_bodies Wb = []"
| "group_bodies Bol = []"
| "group_bodies Eol = []"
| "group_bodies (Seq a b) = group_bodies a @ group_bodies b"
| "group_bodies (Alt a b) = group_bodies a @ group_bodies b"
| "group_bodies (Rep lo hi g r) = group_bodies r"
| "group_bodies (Grp r) = r # group_bodies r"

fun advance :: "mstate \<Rightarrow> string \<Rightarrow> mstate \<Rightarrow> bool" where
  "advance (l, s, c) u (l', s', c') = (l' = rev u @ l \<and> s = u @ s')"

fun cap :: "mstate \<Rightarrow> string option" where
  "cap (l, s, c) = c"

definition captured :: "regex \<Rightarrow> bool \<Rightarrow> string option \<Rightarrow> bool" where
  "captured r ic c = (\<exists>b\<in>set (group_bodies r). \<exists>u. c = Some u \<and> u \<in> lang b ic)"

text \<open>
  The rule table as the specification documents it, on the address a text denotes: a
  dotted quad is the 32-bit number of its four octets, and it is private when it lies in
  one of the blocks 10/8, 172.16/12, 192.168/16, 127/8, 169.254/16, 0/8 and 100.64/10;
  an IPv6 text is private when it is \<^verbatim>\<open>::1\<close> or the 16 bits of its first group lie in
  fe80::/10 or fc00::/7.  \<open>in_block width v base len\<close> compares the leading \<open>len\<close> bits.
\<close>

definition digit_val :: "char \<Rightarrow> nat option" where
  "digit_val c = (if 48 \<le> code c \<and> code c \<le> 57 then Some (nat (code c - 48)) else None)"

definition hex_val :: "char \<Rightarrow> nat option" where
  "hex_val c =
     (if 48 \<le> code c \<and> code c \<le> 57 then Some (nat (code c - 48))
      else if 97 \<le> code c \<and> code c \<le> 102 then Some (nat (code c - 87))
      else if 65 \<le> code c \<and> code c \<le> 70 then Some (nat (code c - 55))
      else None)"

fun number_from :: "nat \<Rightarrow> (char \<Rightarrow> nat option) \<Rightarrow> nat \<Rightarrow> string \<Rightarrow> nat option" where
  "number_from base val acc [] = Some acc"
| "number_from base val acc (c # cs) =
     (case val c of None \<Rightarrow> None | Some d \<Rightarrow> number_from base val (base * acc + d) cs)"

definition decimal :: "string \<Rightarrow> nat option" where
  "decimal s = (if s = [] then None else number_from 10 digit_val 0 s)"

definition hexadecimal :: "string \<Rightarrow> nat option" where
  "hexadecimal s = (if s = [] \<or> 4 < length s then None else number_from 16 hex_val 0 s)"

definition quad :: "string \<Rightarrow> (nat \<times> nat \<times> nat \<times> nat) option" where
  "quad a =
     (case map decimal (split_on CHR ''.'' a) of
        [Some o1, Some o2, Some o3, Some o4] \<Rightarrow>
          if o1 \<le> 255 \<and> o2 \<le> 255 \<and> o3 \<le> 255 \<and> o4 \<le> 255 then Some (o1, o2, o3, o4) else None
      | _ \<Rightarrow> None)"

fun ipv4_number :: "nat \<times> nat \<times> nat \<times> nat \<Rightarrow> nat" where
  "ipv4_number (o1, o2, o3, o4) = ((o1 * 256 + o2) * 256 + o3) * 256 + o4"

definition in_block :: "nat \<Rightarrow> nat \<Rightarrow> nat \<Rightarrow> nat \<Rightarrow> bool" where
  "in_block width v base len = (v div 2 ^ (width - len) = base div 2 ^ (width - len))"

definition private_blocks_v4 :: "((nat \<times> nat \<times> nat \<times> nat) \<times> nat) list" where
  "private_blocks_v4 =
     [((10, 0, 0, 0), 8), ((172, 16, 0, 0), 12), ((192, 168, 0, 0), 16), ((127, 0, 0, 0), 8),
      ((169, 254, 0, 0), 16), ((0, 0, 0, 0), 8), ((100, 64, 0, 0), 10)]"

definition documented_private_v4 :: "string \<Rightarrow> bool" where
  "documented_private_v4 a =
     (case quad a of
        None \<Rightarrow> False
      | Some q \<Rightarrow> list_ex (\<lambda>(base, len). in_block 32 (ipv4_number q) (ipv4_number base) len)
                   private_blocks_v4)"

definition first_group :: "string \<Rightarrow> nat option" where
  "first_group a =
     (if CHR '':'' \<in> set a then hexadecimal (takeWhile (\<lambda>c. c \<noteq> CHR '':'') a) else None)"

definition documented_private_v6 :: "string \<Rightarrow> bool" where
  "documented_private_v6 a =
     (a = ''::1'' \<or>
      (case first_group a of
         None \<Rightarrow> False
       | Some g \<Rightarrow> in_block 16 g 0xfe80 10 \<or> in_block 16 g 0xfc00 7))"

definition documented_private :: "string \<Rightarrow> bool" where
  "documented_private a = (documented_private_v4 a \<or> documented_private_v6 a)"

text \<open>The edge values the specification pins.\<close>

definition pinned :: "string list" where
  "pinned = [''10.255.255.255'', ''100.63.0.1'', ''100.64.0.1'', ''100.127.255.255'',
             ''100.128.0.1'', ''172.15.0.1'', ''172.16.0.1'', ''172.31.255.255'', ''172.32.0.1'']"

text \<open>
  Digits, and texts that start with one or two decimal fields, each followed by a dot.
\<close>

definition is_digit :: "char \<Rightarrow> bool" where
  "is_digit c = (48 \<le> code c \<and> code c \<le> 57)"

definition is_hex :: "char \<Rightarrow> bool" where
  "is_hex c = ((48 \<le> code c \<and> code c \<le> 57) \<or> (97 \<le> code c \<and> code c \<le> 102)
               \<or> (65 \<le> code c \<and> code c \<le> 70))"

definition v4_text :: "string \<Rightarrow> nat \<Rightarrow> bool" where
  "v4_text a v1 = (\<exists>p rest. a = p @ CHR ''.'' # rest \<and> list_all is_digit p \<and> decimal p = Some v1)"

definition v4_text2 :: "string \<Rightarrow> nat \<Rightarrow> nat \<Rightarrow> bool" where
  "v4_text2 a v1 v2 =
     (\<exists>p g rest. a = p @ CHR ''.'' # g @ CHR ''.'' # rest \<and> list_all is_digit p
        \<and> list_all is_digit g \<and> decimal p = Some v1 \<and> decimal g = Some v2)"

text \<open>A record whose abuse contact is the text of the sentinel key.\<close>

definition sample_collision :: whoisInfo where
  "sample_collision =
     \<lparr>ip = ''9.9.9.9'', abuseEmail = Some ''unknown@unknown'', orgName = Some ''Example'',
      netRange = None, country = None, rawWhois = None, error = None\<rparr>"

section \<open>The tests of the repository, run on the model\<close>

text \<open>
  The assertions of \<^verbatim>\<open>ip-extractor.test.js\<close> and \<^verbatim>\<open>abuse-lookup.test.js\<close> hold of the
  definitions above.
\<close>

lemma extractIPs_tests:
  "extractIPs ''Failed password for root from 192.0.2.1 port 22 ssh2'' = [''192.0.2.1'']"
  "extractIPs ''Connection from 203.0.113.5 to 198.51.100.10 established'' =
     [''203.0.113.5'', ''198.51.100.10'']"
  "extractIPs ''Failed login from 2001:db8:85a3:0000:0000:8a2e:0370:7334'' =
     [''2001:db8:85a3:0000:0000:8a2e:0370:7334'']"
  "extractIPs ''System started successfully'' = []"
  "extractIPs ''IPs: 0.0.0.0 and 255.255.255.255'' = [''0.0.0.0'', ''255.255.255.255'']"
  "extractIPs ''Invalid IP: 256.1.1.1 or 1.2.3.999'' = []"
  by code_simp+

lemma isPrivateIP_tests:
  "map isPrivateIP
     [''10.0.0.1'', ''10.255.255.255'', ''172.16.0.1'', ''172.31.255.255'', ''192.168.0.1'',
      ''192.168.255.255'', ''127.0.0.1'', ''127.255.255.255'', ''169.254.0.1'',
      ''169.254.255.255'', ''100.64.0.1'', ''100.127.255.255'', ''0.0.0.0'', ''0.255.255.255'',
      ''::1'', ''fe80:1234:5678::1'', ''fc00:1234::1'', ''fd12:3456::1''] =
   replicate 18 True"
  "map isPrivateIP
     [''172.15.0.1'', ''172.32.0.1'', ''100.63.0.1'', ''100.128.0.1'', ''8.8.8.8'',
      ''203.0.113.1'', ''198.51.100.1'', ''1.1.1.1'', ''2001:db8::1'', ''2607:f8b0:4000::1''] =
   replicate 10 False"
  by code_simp+

lemma buildIPLogMap_tests:
  "buildIPLogMap [''Local connection from 192.168.1.1'', ''External attack from 203.0.113.5'',
                  ''Loopback 127.0.0.1''] =
     [(''203.0.113.5'', [''External attack from 203.0.113.5''])]"
  "buildIPLogMap [''Local connection from 192.168.1.1'', ''Loopback 127.0.0.1''] = []"
  "buildIPLogMap [] = []"
  "buildIPLogMap [''System started'', ''Attack from 203.0.113.5'', ''Service stopped''] =
     [(''203.0.113.5'', [''Attack from 203.0.113.5''])]"
  by code_simp+

lemma groupByAbuseEmail_tests:
  "map (\<lambda>(key, infos). (key, map ip infos))
     (groupByAbuseEmail
        [(''1.2.3.4'', \<lparr>ip = ''1.2.3.4'', abuseEmail = Some ''abuse@provider.com'',
                        orgName = Some ''Provider'', netRange = None, country = None,
                        rawWhois = None, error = None\<rparr>),
         (''5.6.7.8'', \<lparr>ip = ''5.6.7.8'', abuseEmail = None, orgName = Some ''Unknown'',
                        netRange = None, country = None, rawWhois = None, error = None\<rparr>),
         (''9.10.11.12'', \<lparr>ip = ''9.10.11.12'', abuseEmail = None,
                           orgName = Some ''Also Unknown'', netRange = None, country = None,
                           rawWhois = None, error = None\<rparr>)]) =
   [(''abuse@provider.com'', [''1.2.3.4'']), (''unknown@unknown'', [''5.6.7.8'', ''9.10.11.12''])]"
  "groupByAbuseEmail [] = []"
  by code_simp+

section \<open>Maps of arrays\<close>

lemma map_of_map_set: "map_of (map_set m k v) = (map_of m)(k \<mapsto> v)"
  by (induction m) (auto simp: fun_eq_iff)

lemma keys_map_set:
  "map fst (map_set m k v) = (if k \<in> set (map fst m) then map fst m else map fst m @ [k])"
  by (induction m) force+

lemma mset_map_set_new:
  "map_of m k = None \<Longrightarrow> mset (concat (map snd (map_set m k v))) = mset (concat (map snd m)) + mset v"
  by (induction m) (auto split: if_splits)

lemma mset_map_set_old:
  "map_of m k = Some vs \<Longrightarrow>
   mset (concat (map snd (map_set m k (vs @ [x])))) = mset (concat (map snd m)) + {#x#}"
  by (induction m) (auto split: if_splits)

lemma map_push_entries:
  "entries_of (map_push m k x) k' = entries_of m k' @ (if k' = k then [x] else [])"
  by (auto simp: map_push_def entries_of_def map_has_def map_get_def map_of_map_set Let_def
           split: option.splits)

lemma map_push_no_empty: "no_empty m \<Longrightarrow> no_empty (map_push m k x)"
  by (auto simp: map_push_def no_empty_def map_has_def map_get_def map_of_map_set Let_def
           split: option.splits)

lemma map_push_distinct: "distinct (map fst m) \<Longrightarrow> distinct (map fst (map_push m k x))"
  by (auto simp: map_push_def map_has_def map_get_def Let_def keys_map_set split: option.splits)

lemma map_push_mset:
  "mset (concat (map snd (map_push m k x))) = mset (concat (map snd m)) + {#x#}"
proof (cases "map_of m k")
  case None
  have "map_of (map_set m k []) k = Some []" by (simp add: map_of_map_set)
  from mset_map_set_old [OF this, of x] mset_map_set_new [OF None, of "[]"] None
  show ?thesis by (simp add: map_push_def map_has_def map_get_def map_of_map_set)
next
  case (Some vs)
  from mset_map_set_old [OF Some, of x] Some
  show ?thesis by (simp add: map_push_def map_has_def map_get_def)
qed

lemma entries_of_get:
  "no_empty m \<Longrightarrow> map_get m k = (if entries_of m k = [] then None else Some (entries_of m k))"
  by (auto simp: no_empty_def entries_of_def map_get_def split: option.splits)

section \<open>The address extractor and the Log Index\<close>

lemma inner_entries:
  "entries_of (foldl (\<lambda>m a. if P a then m else map_push m a line) m as) k =
     entries_of m k @ (if P k then [] else replicate (count_list as k) line)"
proof (induction as arbitrary: m)
  case Nil
  then show ?case by simp
next
  case (Cons a as)
  then show ?case
    by (auto simp: map_push_entries replicate_app_Cons_same)
qed

lemma inner_no_empty:
  "no_empty m \<Longrightarrow> no_empty (foldl (\<lambda>m a. if P a then m else map_push m a line) m as)"
  by (induction as arbitrary: m) (auto simp: map_push_no_empty)

lemma inner_distinct:
  "distinct (map fst m) \<Longrightarrow>
   distinct (map fst (foldl (\<lambda>m a. if P a then m else map_push m a line) m as))"
  by (induction as arbitrary: m) (auto simp: map_push_distinct)

lemma outer_entries:
  "entries_of (foldl scan_line m lines) k =
     entries_of m k @ (if isPrivateIP k then [] else mentions lines k)"
  by (induction lines arbitrary: m) (auto simp: scan_line_def inner_entries mentions_def)

lemma outer_no_empty: "no_empty m \<Longrightarrow> no_empty (foldl scan_line m lines)"
  by (induction lines arbitrary: m) (auto simp: scan_line_def inner_no_empty)

lemma outer_distinct: "distinct (map fst m) \<Longrightarrow> distinct (map fst (foldl scan_line m lines))"
  by (induction lines arbitrary: m) (auto simp: scan_line_def inner_distinct)

text \<open>
  C5, as the code has it.  The Log Index has one entry per distinct public address that
  \<^verbatim>\<open>extractIPs\<close> reports in some line, and no other entry; the entry lists the lines in
  input order, each line once for every occurrence of the address that \<^verbatim>\<open>extractIPs\<close>
  reports in it.  A line that names the same public address k times is therefore pushed
  k times onto that address's entry, not once.
\<close>

theorem buildIPLogMap_entries:
  "map_get (buildIPLogMap lines) a =
     (if isPrivateIP a \<or> mentions lines a = [] then None else Some (mentions lines a))
   \<and> distinct (map fst (buildIPLogMap lines))"
proof -
  have ne: "no_empty (buildIPLogMap lines)"
    unfolding buildIPLogMap_def by (rule outer_no_empty) (simp add: no_empty_def)
  have en: "entries_of (buildIPLogMap lines) a = (if isPrivateIP a then [] else mentions lines a)"
    using outer_entries [of "[]" lines a] by (simp add: buildIPLogMap_def entries_of_def)
  have di: "distinct (map fst (buildIPLogMap lines))"
    unfolding buildIPLogMap_def by (rule outer_distinct) simp
  show ?thesis using entries_of_get [OF ne, of a] en di by auto
qed

text \<open>
  The theorem at the three lines of the repository's test \<^verbatim>\<open>builds map of IPs to log
  entries\<close>: the address of the first two lines maps to both, in order.
\<close>

theorem buildIPLogMap_entries_witness:
  "map_get (buildIPLogMap
       [''Failed password for root from 203.0.113.5 port 22'',
        ''Failed password for admin from 203.0.113.5 port 22'',
        ''Connection attempt from 198.51.100.10'']) ''203.0.113.5'' =
     Some [''Failed password for root from 203.0.113.5 port 22'',
           ''Failed password for admin from 203.0.113.5 port 22'']"
proof -
  have pub: "\<not> isPrivateIP ''203.0.113.5''"
    by code_simp
  have men: "mentions
       [''Failed password for root from 203.0.113.5 port 22'',
        ''Failed password for admin from 203.0.113.5 port 22'',
        ''Connection attempt from 198.51.100.10''] ''203.0.113.5'' =
     [''Failed password for root from 203.0.113.5 port 22'',
      ''Failed password for admin from 203.0.113.5 port 22'']"
    by code_simp
  show ?thesis
    using buildIPLogMap_entries
      [of "[''Failed password for root from 203.0.113.5 port 22'',
            ''Failed password for admin from 203.0.113.5 port 22'',
            ''Connection attempt from 198.51.100.10'']" "''203.0.113.5''"]
    by (simp only: pub men) simp
qed

text \<open>
  C5 as the specification words it fails: a line in which the public address 8.8.8.8
  occurs twice is pushed twice onto the entry of 8.8.8.8.
\<close>

theorem buildIPLogMap_repeated_address_counterexample:
  "map_get (buildIPLogMap [''8.8.8.8 8.8.8.8'']) ''8.8.8.8'' =
     Some [''8.8.8.8 8.8.8.8'', ''8.8.8.8 8.8.8.8'']
   \<and> map_get (buildIPLogMap [''8.8.8.8 8.8.8.8'']) ''8.8.8.8'' \<noteq> Some [''8.8.8.8 8.8.8.8'']"
  by code_simp

text \<open>
  C7.  The claim asks for every address of fe80::/10 and of fc00::/7 to be private.  The
  IPv6 table of \<^verbatim>\<open>isPrivateIP\<close> tests the text for the prefixes \<^verbatim>\<open>fe80:\<close>, \<^verbatim>\<open>fc00:\<close> and
  \<^verbatim>\<open>fd\<close> plus two hex digits: link-local addresses whose first group is fe81 to febf and
  unique-local addresses whose first group is fc01 to fcff are classified public, and so
  is the loopback address written in full.  The neighbours the table does name are
  private.
\<close>

theorem isPrivateIP_ipv6_prefixes:
  "\<not> isPrivateIP ''fe81::1'' \<and> \<not> isPrivateIP ''feb0::1'' \<and>
   \<not> isPrivateIP ''fc01::1'' \<and> \<not> isPrivateIP ''fcff::1'' \<and>
   \<not> isPrivateIP ''fe81:0:0:0:0:0:0:1'' \<and> \<not> isPrivateIP ''0:0:0:0:0:0:0:1'' \<and>
   isPrivateIP ''fe80::1'' \<and> isPrivateIP ''fc00::1'' \<and> isPrivateIP ''fd01::1'' \<and>
   isPrivateIP ''FE80::1'' \<and> isPrivateIP ''::1''"
  by code_simp

text \<open>
  C8.  The claim asks \<^verbatim>\<open>extractIPs\<close> to return every well-formed IPv6 literal of a line.
  Each alternative of \<^verbatim>\<open>IPV6_REGEX\<close> starts and ends with a word-boundary assertion, and a
  colon is no word character: a literal that starts with \<^verbatim>\<open>::\<close> matches only after a word
  character, and the second alternative ends a compressed literal at its \<^verbatim>\<open>::\<close> before
  the later alternatives are tried.  So \<^verbatim>\<open>::1\<close> is not found, a compressed address is cut
  at the double colon, and of an IPv4-mapped address only the dotted quad is returned (as
  an IPv4 match).  The expanded form is found.
\<close>

theorem extractIPs_ipv6_forms:
  "extractIPs ''::1'' = [] \<and>
   extractIPs ''from ::1 port 22'' = [] \<and>
   extractIPs ''2001:db8::1'' = [''2001:db8::''] \<and>
   extractIPs ''::ffff:192.0.2.1'' = [''192.0.2.1''] \<and>
   extractIPs ''2001:db8:85a3:0000:0000:8a2e:0370:7334'' =
     [''2001:db8:85a3:0000:0000:8a2e:0370:7334'']"
  by code_simp

section \<open>Grouping by abuse contact\<close>

lemma group_fold_entries:
  "entries_of (foldl (\<lambda>groups (a, info). map_push groups (group_key info) info) m rs) k =
     entries_of m k @ filter (\<lambda>info. group_key info = k) (map snd rs)"
  by (induction rs arbitrary: m) (auto simp: map_push_entries)

lemma group_fold_no_empty:
  "no_empty m \<Longrightarrow> no_empty (foldl (\<lambda>groups (a, info). map_push groups (group_key info) info) m rs)"
  by (induction rs arbitrary: m) (auto simp: map_push_no_empty)

lemma group_fold_distinct:
  "distinct (map fst m) \<Longrightarrow>
   distinct (map fst (foldl (\<lambda>groups (a, info). map_push groups (group_key info) info) m rs))"
  by (induction rs arbitrary: m) (auto simp: map_push_distinct)

lemma group_fold_mset:
  "mset (concat (map snd (foldl (\<lambda>groups (a, info). map_push groups (group_key info) info) m rs))) =
     mset (concat (map snd m)) + mset (map snd rs)"
  by (induction rs arbitrary: m) (auto simp: map_push_mset)

lemma group_get:
  "map_get (groupByAbuseEmail rs) k =
     (if filter (\<lambda>info. group_key info = k) (map snd rs) = [] then None
      else Some (filter (\<lambda>info. group_key info = k) (map snd rs)))"
proof -
  have ne: "no_empty (groupByAbuseEmail rs)"
    unfolding groupByAbuseEmail_def by (rule group_fold_no_empty) (simp add: no_empty_def)
  have en: "entries_of (groupByAbuseEmail rs) k = filter (\<lambda>info. group_key info = k) (map snd rs)"
    using group_fold_entries [of "[]" rs k] by (simp add: groupByAbuseEmail_def entries_of_def)
  show ?thesis using entries_of_get [OF ne, of k] en by simp
qed

text \<open>
  C4.  \<^verbatim>\<open>groupByAbuseEmail\<close> puts every record whose abuse contact is absent or empty
  into the group of the key \<^verbatim>\<open>unknown@unknown\<close> and every other record into the group of
  its contact; a group holds exactly the input records with its key, in input order; the
  groups together hold the input records, each as often as the input does; and no key has
  two groups.
\<close>

theorem groupByAbuseEmail_partition:
  "(\<forall>info \<in> set (map snd rs).
      (abuseEmail info = None \<or> abuseEmail info = Some [] \<longrightarrow>
         (\<exists>g. map_get (groupByAbuseEmail rs) ''unknown@unknown'' = Some g \<and> info \<in> set g)) \<and>
      (\<forall>e. abuseEmail info = Some e \<and> e \<noteq> [] \<longrightarrow>
         (\<exists>g. map_get (groupByAbuseEmail rs) e = Some g \<and> info \<in> set g)))
   \<and> (\<forall>k g. map_get (groupByAbuseEmail rs) k = Some g \<longrightarrow>
         g = filter (\<lambda>info. group_key info = k) (map snd rs))
   \<and> mset (concat (map snd (groupByAbuseEmail rs))) = mset (map snd rs)
   \<and> distinct (map fst (groupByAbuseEmail rs))"
proof (intro conjI ballI allI impI)
  fix info assume i: "info \<in> set (map snd rs)"
    and a: "abuseEmail info = None \<or> abuseEmail info = Some []"
  from a have k: "group_key info = ''unknown@unknown''"
    by (auto simp: group_key_def unknown_def)
  with i have "info \<in> set (filter (\<lambda>i. group_key i = ''unknown@unknown'') (map snd rs))"
    by simp
  then show "\<exists>g. map_get (groupByAbuseEmail rs) ''unknown@unknown'' = Some g \<and> info \<in> set g"
    by (auto simp: group_get simp del: set_filter)
next
  fix info e assume i: "info \<in> set (map snd rs)"
    and a: "abuseEmail info = Some e \<and> e \<noteq> []"
  from a have k: "group_key info = e"
    by (auto simp: group_key_def)
  with i have "info \<in> set (filter (\<lambda>i. group_key i = e) (map snd rs))"
    by simp
  then show "\<exists>g. map_get (groupByAbuseEmail rs) e = Some g \<and> info \<in> set g"
    by (auto simp: group_get simp del: set_filter)
next
  fix k g assume "map_get (groupByAbuseEmail rs) k = Some g"
  then show "g = filter (\<lambda>info. group_key info = k) (map snd rs)"
    by (simp add: group_get split: if_splits)
next
  show "mset (concat (map snd (groupByAbuseEmail rs))) = mset (map snd rs)"
    using group_fold_mset [of "[]" rs] by (simp add: groupByAbuseEmail_def)
next
  show "distinct (map fst (groupByAbuseEmail rs))"
    unfolding groupByAbuseEmail_def by (rule group_fold_distinct) simp
qed

text \<open>The theorem at one resolved and one failed record.\<close>

theorem groupByAbuseEmail_partition_witness:
  "\<exists>g. map_get (groupByAbuseEmail
            [(''8.8.8.8'', parsed ''8.8.8.8'' ''abuse: a@b.cd''),
             (''1.1.1.1'', failed ''1.1.1.1'' ''timeout'')]) ''unknown@unknown'' = Some g
        \<and> g = [failed ''1.1.1.1'' ''timeout'']"
proof -
  let ?rs = "[(''8.8.8.8'', parsed ''8.8.8.8'' ''abuse: a@b.cd''),
              (''1.1.1.1'', failed ''1.1.1.1'' ''timeout'')]"
  have e: "extractAbuseEmail ''abuse: a@b.cd'' = Some ''a@b.cd''"
    by code_simp
  have k1: "group_key (parsed ''8.8.8.8'' ''abuse: a@b.cd'') = ''a@b.cd''"
    by (simp add: group_key_def parsed_def e)
  have k2: "group_key (failed ''1.1.1.1'' ''timeout'') = ''unknown@unknown''"
    by (simp add: group_key_def failed_def unknown_def)
  have n: "abuseEmail (failed ''1.1.1.1'' ''timeout'') = None"
    by (simp add: failed_def)
  have m: "failed ''1.1.1.1'' ''timeout'' \<in> set (map snd ?rs)"
    by simp
  from groupByAbuseEmail_partition [of ?rs]
  have A: "\<forall>info \<in> set (map snd ?rs).
      (abuseEmail info = None \<or> abuseEmail info = Some [] \<longrightarrow>
         (\<exists>g. map_get (groupByAbuseEmail ?rs) ''unknown@unknown'' = Some g \<and> info \<in> set g))"
    and B: "\<forall>k g. map_get (groupByAbuseEmail ?rs) k = Some g \<longrightarrow>
         g = filter (\<lambda>info. group_key info = k) (map snd ?rs)"
    by blast+
  from A m n obtain g where g: "map_get (groupByAbuseEmail ?rs) ''unknown@unknown'' = Some g"
    by blast
  with B have "g = filter (\<lambda>info. group_key info = ''unknown@unknown'') (map snd ?rs)"
    by blast
  then have "g = [failed ''1.1.1.1'' ''timeout'']"
    by (simp add: k1 k2)
  with g show ?thesis by blast
qed

section \<open>The lookup cache\<close>

lemma rateLimitDelay_facts:
  "lastWhoisQuery (rateLimitDelay w s) = now (rateLimitDelay w s)"
  "lastWhoisQuery s + 1000 \<le> now (rateLimitDelay w s)"
  "now s \<le> now (rateLimitDelay w s)"
  "events (rateLimitDelay w s) = events s @ wait_events s"
  "whoisCache (rateLimitDelay w s) = whoisCache s"
  by (auto simp: rateLimitDelay_def Let_def WHOIS_DELAY_def wait_events_def)

lemma lookupIP_hit:
  "map_get (whoisCache s) a = Some info \<Longrightarrow> lookupIP w a s = (info, s)"
  by (simp add: lookupIP_def)

lemma lookupIP_miss:
  assumes "map_get (whoisCache s) a = None"
  shows "\<exists>t t'. lookupIP w a s =
           (result_of w a t,
            s\<lparr>lastWhoisQuery := t, now := t',
              events := events s @ wait_events s @ [Issue a t, Complete a t'],
              whoisCache := map_set (whoisCache s) a (result_of w a t)\<rparr>)
         \<and> lastWhoisQuery s + 1000 \<le> t \<and> now s \<le> t \<and> t \<le> t'
         \<and> t = now (rateLimitDelay w s) \<and> t' = t + int (whois_ms w a t)"
  using assms
  by (auto simp: lookupIP_def Let_def result_of_def rateLimitDelay_def WHOIS_DELAY_def wait_events_def)

lemma map_get_map_set: "map_get (map_set m k v) k' = (if k' = k then Some v else map_get m k')"
  by (simp add: map_get_def map_of_map_set)

lemma lookupIP_cached_after:
  "lookupIP w a s = (info, s') \<Longrightarrow> map_get (whoisCache s') a = Some info"
proof (cases "map_get (whoisCache s) a")
  case None
  assume "lookupIP w a s = (info, s')"
  with lookupIP_miss [OF None, of w] show ?thesis
    by (auto simp: map_get_map_set)
next
  case (Some x)
  assume "lookupIP w a s = (info, s')"
  with lookupIP_hit [OF Some, of w] Some show ?thesis by simp
qed

lemma lookupIP_keeps:
  "map_get (whoisCache s) b = Some x \<Longrightarrow> map_get (whoisCache (snd (lookupIP w a s))) b = Some x"
proof (cases "map_get (whoisCache s) a")
  case None
  assume b: "map_get (whoisCache s) b = Some x"
  with None have "b \<noteq> a" by auto
  with lookupIP_miss [OF None, of w] b show ?thesis
    by (auto simp: map_get_map_set)
next
  case (Some y)
  assume "map_get (whoisCache s) b = Some x"
  with lookupIP_hit [OF Some, of w] show ?thesis by simp
qed

lemma lookups_keeps:
  "map_get (whoisCache s) b = Some x \<Longrightarrow> map_get (whoisCache (lookups w bs s)) b = Some x"
  unfolding lookups_def
  by (induction bs arbitrary: s) (auto simp: lookupIP_keeps)

text \<open>
  C1.  After an address has been resolved, in whatever world and with whatever outcome
  (the failure object is cached like the parsed one), and after any further lookups of
  the run, resolving it again returns the same object and leaves the state as it is: no
  event is added (no timer, no query), and the clock and \<^verbatim>\<open>lastWhoisQuery\<close> keep their
  values.
\<close>

theorem lookupIP_second_time_cached:
  "lookupIP w' a (lookups w bs (snd (lookupIP w a s))) =
     (fst (lookupIP w a s), lookups w bs (snd (lookupIP w a s)))"
proof -
  obtain info s1 where l: "lookupIP w a s = (info, s1)" by (cases "lookupIP w a s")
  from lookupIP_cached_after [OF l] have "map_get (whoisCache s1) a = Some info" .
  then have "map_get (whoisCache (lookups w bs s1)) a = Some info" by (rule lookups_keeps)
  then show ?thesis using l by (simp add: lookupIP_hit)
qed

text \<open>The theorem at an address whose first lookup fails: the failure object comes back.\<close>

theorem lookupIP_second_time_witness:
  "lookupIP sample_world ''1.1.1.1'' (snd (lookupIP sample_world ''1.1.1.1'' (initial 5000))) =
     (failed ''1.1.1.1'' ''timeout'',
      \<lparr>whoisCache = [(''1.1.1.1'', failed ''1.1.1.1'' ''timeout'')], lastWhoisQuery = 5000,
       now = 5040, events = [Issue ''1.1.1.1'' 5000, Complete ''1.1.1.1'' 5040]\<rparr>)"
proof -
  have "lookupIP sample_world ''1.1.1.1'' (initial 5000) =
     (failed ''1.1.1.1'' ''timeout'',
      \<lparr>whoisCache = [(''1.1.1.1'', failed ''1.1.1.1'' ''timeout'')], lastWhoisQuery = 5000,
       now = 5040, events = [Issue ''1.1.1.1'' 5000, Complete ''1.1.1.1'' 5040]\<rparr>)"
    by (simp add: lookupIP_def initial_def sample_world_def rateLimitDelay_def WHOIS_DELAY_def
        map_get_def Let_def)
  then show ?thesis
    using lookupIP_second_time_cached [of sample_world "''1.1.1.1''" sample_world "[]" "initial 5000"]
    by (simp add: lookups_def)
qed

section \<open>The loop of \<^verbatim>\<open>lookupIPs\<close>\<close>

lemma issued_append: "issued (xs @ ys) = issued xs @ issued ys"
  by (induction xs rule: issued.induct) auto

lemma issued_wait: "issued (wait_events s) = []"
  by (simp add: wait_events_def)


lemma loop_Cons:
  "lookup_loop w p n i (a # ips) res s =
     lookup_loop w p n (i + 1) ips
       (map_set res a (fst (lookupIP w a (if p then s\<lparr>events := events s @ [Progress a (i + 1) n]\<rparr> else s))))
       (snd (lookupIP w a (if p then s\<lparr>events := events s @ [Progress a (i + 1) n]\<rparr> else s)))"
  by (simp add: Let_def split: prod.splits)


lemma lookupIP_events:
  "\<exists>b. events (snd (lookupIP w a s)) = events s @ b \<and> (\<forall>e\<in>set b. of_lookup a e)
       \<and> (\<forall>c t. Issue c t \<in> set b \<longrightarrow>
             c = a \<and> map_get (whoisCache (snd (lookupIP w a s))) c = Some (result_of w c t))"
proof (cases "map_get (whoisCache s) a")
  case None
  from lookupIP_miss [OF None, of w] show ?thesis
    by (auto simp: wait_events_def map_get_map_set)
next
  case (Some x)
  from lookupIP_hit [OF Some, of w] show ?thesis by simp
qed

lemma loop_blocks:
  "lookup_loop w p n i ips res s = (res', s') \<Longrightarrow>
   \<exists>blocks. length blocks = length ips
     \<and> events s' = events s @ concat (map (\<lambda>(k, a, b). (if p then [Progress a (k + 1) n] else []) @ b)
                                       (zip [i..<i + length ips] (zip ips blocks)))
     \<and> (\<forall>(a, b)\<in>set (zip ips blocks). \<forall>e\<in>set b. of_lookup a e)"
proof (induction ips arbitrary: i res s)
  case Nil
  then show ?case by simp
next
  case (Cons a ips)
  define s1 where "s1 = (if p then s\<lparr>events := events s @ [Progress a (i + 1) n]\<rparr> else s)"
  have e1: "events s1 = events s @ (if p then [Progress a (i + 1) n] else [])"
    by (simp add: s1_def)
  from lookupIP_events [of w a s1] obtain b where
    b: "events (snd (lookupIP w a s1)) = events s1 @ b" "\<forall>e\<in>set b. of_lookup a e" by blast
  have rest: "lookup_loop w p n (Suc i) ips (map_set res a (fst (lookupIP w a s1))) (snd (lookupIP w a s1)) = (res', s')"
    using Cons.prems by (simp only: loop_Cons s1_def) simp
  from Cons.IH [OF rest] obtain blocks where
    bl: "length blocks = length ips"
        "events s' = events (snd (lookupIP w a s1)) @
           concat (map (\<lambda>(k, a, b). (if p then [Progress a (k + 1) n] else []) @ b)
                       (zip [Suc i..<Suc i + length ips] (zip ips blocks)))"
        "\<forall>(a, b)\<in>set (zip ips blocks). \<forall>e\<in>set b. of_lookup a e" by blast
  have u: "[i..<i + length (a # ips)] = i # [Suc i..<Suc i + length ips]"
    by (simp add: upt_conv_Cons del: upt_Suc)
  have f1: "length (b # blocks) = length (a # ips)" using bl(1) by simp
  have f2: "events s' = events s @
      concat (map (\<lambda>(k, a, b). (if p then [Progress a (k + 1) n] else []) @ b)
                  (zip [i..<i + length (a # ips)] (zip (a # ips) (b # blocks))))"
    unfolding u using bl(2) b(1) e1 by simp
  have f3: "\<forall>(a, b)\<in>set (zip (a # ips) (b # blocks)). \<forall>e\<in>set b. of_lookup a e"
    using bl(3) b(2) by simp
  show ?case by (rule exI [of _ "b # blocks"]) (intro conjI f1 f2 f3)
qed

lemma loop_results:
  "lookup_loop w p n i ips res s = (res', s') \<Longrightarrow>
   (\<forall>a. map_get res' a = (if a \<in> set ips then map_get (whoisCache s') a else map_get res a))
   \<and> (\<forall>a x. map_get (whoisCache s) a = Some x \<longrightarrow> map_get (whoisCache s') a = Some x)
   \<and> (\<forall>a\<in>set ips. map_get (whoisCache s') a \<noteq> None)
   \<and> (\<exists>new. events s' = events s @ new \<and>
         (\<forall>c t. Issue c t \<in> set new \<longrightarrow>
            c \<in> set ips \<and> map_get (whoisCache s') c = Some (result_of w c t)))"
proof (induction ips arbitrary: i res s)
  case Nil
  then show ?case by simp
next
  case (Cons a ips)
  define s1 where "s1 = (if p then s\<lparr>events := events s @ [Progress a (i + 1) n]\<rparr> else s)"
  have c1: "whoisCache s1 = whoisCache s"
    and e1: "events s1 = events s @ (if p then [Progress a (i + 1) n] else [])"
    by (simp_all add: s1_def)
  obtain info s2 where lk: "lookupIP w a s1 = (info, s2)" by (cases "lookupIP w a s1")
  have got: "map_get (whoisCache s2) a = Some info" by (rule lookupIP_cached_after [OF lk])
  have keep: "\<And>b x. map_get (whoisCache s) b = Some x \<Longrightarrow> map_get (whoisCache s2) b = Some x"
    using lookupIP_keeps [of s1 _ _ w a] lk c1 by simp
  from lookupIP_events [of w a s1] lk obtain b where
    b: "events s2 = events s1 @ b"
       "\<forall>c t. Issue c t \<in> set b \<longrightarrow> c = a \<and> map_get (whoisCache s2) c = Some (result_of w c t)" by auto
  have rest: "lookup_loop w p n (i + 1) ips (map_set res a info) s2 = (res', s')"
    using Cons.prems lk by (simp only: loop_Cons s1_def) simp
  from Cons.IH [OF rest] obtain new where
    ih: "\<forall>c. map_get res' c = (if c \<in> set ips then map_get (whoisCache s') c else map_get (map_set res a info) c)"
        "\<forall>c x. map_get (whoisCache s2) c = Some x \<longrightarrow> map_get (whoisCache s') c = Some x"
        "\<forall>c\<in>set ips. map_get (whoisCache s') c \<noteq> None"
        "events s' = events s2 @ new"
        "\<forall>c t. Issue c t \<in> set new \<longrightarrow>
           c \<in> set ips \<and> map_get (whoisCache s') c = Some (result_of w c t)" by blast
  have a': "map_get (whoisCache s') a = Some info" using ih(2) got by blast
  have f1: "\<forall>c. map_get res' c = (if c \<in> set (a # ips) then map_get (whoisCache s') c else map_get res c)"
    using ih(1) a' by (auto simp: map_get_map_set)
  have f2: "\<forall>c x. map_get (whoisCache s) c = Some x \<longrightarrow> map_get (whoisCache s') c = Some x"
    using keep ih(2) by blast
  have f3: "\<forall>c\<in>set (a # ips). map_get (whoisCache s') c \<noteq> None"
    using ih(3) a' by simp
  have f4: "events s' = events s @ ((if p then [Progress a (i + 1) n] else []) @ b @ new)"
    using ih(4) b(1) e1 by simp
  have f5: "\<forall>c t. Issue c t \<in> set ((if p then [Progress a (i + 1) n] else []) @ b @ new) \<longrightarrow>
                   c \<in> set (a # ips) \<and> map_get (whoisCache s') c = Some (result_of w c t)"
    using ih(5) b(2) ih(2) by auto
  from f4 f5 have "\<exists>new. events s' = events s @ new \<and>
         (\<forall>c t. Issue c t \<in> set new \<longrightarrow>
            c \<in> set (a # ips) \<and> map_get (whoisCache s') c = Some (result_of w c t))"
    by blast
  with f1 f2 f3 show ?case by blast
qed

lemma lookupIP_sequential:
  "\<exists>b. events (snd (lookupIP w a s)) = events s @ b
       \<and> (\<forall>rest. one_at_a_time None (b @ rest) = one_at_a_time None rest)"
proof (cases "map_get (whoisCache s) a")
  case None
  from lookupIP_miss [OF None, of w] obtain t t' where
    "events (snd (lookupIP w a s)) = events s @ wait_events s @ [Issue a t, Complete a t']"
    by auto
  moreover have "\<forall>rest. one_at_a_time None ((wait_events s @ [Issue a t, Complete a t']) @ rest)
      = one_at_a_time None rest"
    by (simp add: wait_events_def)
  ultimately show ?thesis by blast
next
  case (Some x)
  from lookupIP_hit [OF Some, of w] have "events (snd (lookupIP w a s)) = events s @ []" by simp
  moreover have "\<forall>rest. one_at_a_time None ([] @ rest) = one_at_a_time None rest" by simp
  ultimately show ?thesis by blast
qed

lemma loop_sequential:
  "lookup_loop w p n i ips res s = (res', s') \<Longrightarrow>
   \<exists>new. events s' = events s @ new \<and> one_at_a_time None new"
proof (induction ips arbitrary: i res s)
  case Nil
  then show ?case by simp
next
  case (Cons a ips)
  define s1 where "s1 = (if p then s\<lparr>events := events s @ [Progress a (i + 1) n]\<rparr> else s)"
  have e1: "events s1 = events s @ (if p then [Progress a (i + 1) n] else [])"
    by (simp add: s1_def)
  from lookupIP_sequential [of w a s1] obtain b where
    b: "events (snd (lookupIP w a s1)) = events s1 @ b"
       "\<forall>rest. one_at_a_time None (b @ rest) = one_at_a_time None rest" by blast
  have rest: "lookup_loop w p n (i + 1) ips (map_set res a (fst (lookupIP w a s1))) (snd (lookupIP w a s1)) = (res', s')"
    using Cons.prems by (simp only: loop_Cons s1_def)
  from Cons.IH [OF rest] obtain new where
    n: "events s' = events (snd (lookupIP w a s1)) @ new" "one_at_a_time None new" by blast
  have f1: "events s' = events s @ ((if p then [Progress a (i + 1) n] else []) @ b @ new)"
    using n(1) b(1) e1 by simp
  have f2: "one_at_a_time None ((if p then [Progress a (i + 1) n] else []) @ b @ new)"
    using n(2) b(2) by simp
  from f1 f2 show ?case by blast
qed

lemma loop_resolved:
  "lookup_loop w p n i ips res s = (res', s') \<Longrightarrow>
   \<exists>new. events s' = events s @ new
     \<and> (\<forall>a\<in>set ips. map_get (whoisCache s) a = None \<longrightarrow>
           (\<exists>t. Issue a t \<in> set new \<and> map_get (whoisCache s') a = Some (result_of w a t)))
     \<and> (\<forall>a x. map_get (whoisCache s) a = Some x \<longrightarrow> map_get (whoisCache s') a = Some x)
     \<and> set (map fst (issued new)) = {a \<in> set ips. map_get (whoisCache s) a = None}
     \<and> distinct (map fst (issued new))"
proof (induction ips arbitrary: i res s)
  case Nil
  then show ?case by simp
next
  case (Cons a ips)
  define s1 where "s1 = (if p then s\<lparr>events := events s @ [Progress a (i + 1) n]\<rparr> else s)"
  define pr where "pr = (if p then [Progress a (i + 1) n] else [])"
  have c1: "whoisCache s1 = whoisCache s" and e1: "events s1 = events s @ pr"
    by (simp_all add: s1_def pr_def)
  have ipr: "issued pr = []" "\<And>c t. Issue c t \<notin> set pr" by (simp_all add: pr_def)
  define s2 where "s2 = snd (lookupIP w a s1)"
  have rest: "lookup_loop w p n (i + 1) ips (map_set res a (fst (lookupIP w a s1))) s2 = (res', s')"
    using Cons.prems by (simp only: loop_Cons s1_def s2_def)
  from Cons.IH [OF rest] obtain new where
    ih: "events s' = events s2 @ new"
        "\<forall>b\<in>set ips. map_get (whoisCache s2) b = None \<longrightarrow>
           (\<exists>t. Issue b t \<in> set new \<and> map_get (whoisCache s') b = Some (result_of w b t))"
        "\<forall>b x. map_get (whoisCache s2) b = Some x \<longrightarrow> map_get (whoisCache s') b = Some x"
        "set (map fst (issued new)) = {b \<in> set ips. map_get (whoisCache s2) b = None}"
        "distinct (map fst (issued new))" by blast
  show ?case
  proof (cases "map_get (whoisCache s) a")
    case None
    with c1 have miss: "map_get (whoisCache s1) a = None" by simp
    from lookupIP_miss [OF miss, of w] obtain t t' where
      lk: "lookupIP w a s1 =
             (result_of w a t,
              s1\<lparr>lastWhoisQuery := t, now := t',
                 events := events s1 @ wait_events s1 @ [Issue a t, Complete a t'],
                 whoisCache := map_set (whoisCache s1) a (result_of w a t)\<rparr>)" by blast
    have c2: "\<And>b. map_get (whoisCache s2) b = (if b = a then Some (result_of w a t) else map_get (whoisCache s) b)"
      by (simp add: s2_def lk c1 map_get_map_set)
    have e2: "events s2 = events s @ pr @ wait_events s1 @ [Issue a t, Complete a t']"
      by (simp add: s2_def lk e1)
    let ?new = "pr @ wait_events s1 @ [Issue a t, Complete a t'] @ new"
    have i: "issued ?new = (a, t) # issued new"
      by (simp add: issued_append issued_wait ipr)
    have f1: "events s' = events s @ ?new" using ih(1) e2 by simp
    have a': "map_get (whoisCache s') a = Some (result_of w a t)" using ih(3) c2 by simp
    have f2: "\<forall>b\<in>set (a # ips). map_get (whoisCache s) b = None \<longrightarrow>
           (\<exists>t. Issue b t \<in> set ?new \<and> map_get (whoisCache s') b = Some (result_of w b t))"
    proof (intro ballI impI)
      fix b assume b: "b \<in> set (a # ips)" "map_get (whoisCache s) b = None"
      show "\<exists>t. Issue b t \<in> set ?new \<and> map_get (whoisCache s') b = Some (result_of w b t)"
      proof (cases "b = a")
        case True
        with a' show ?thesis by (intro exI [of _ t]) simp
      next
        case False
        with b have "b \<in> set ips" "map_get (whoisCache s2) b = None" by (simp_all add: c2)
        with ih(2) obtain u where "Issue b u \<in> set new" "map_get (whoisCache s') b = Some (result_of w b u)"
          by blast
        then show ?thesis by (intro exI [of _ u]) simp
      qed
    qed
    have f3: "\<forall>b x. map_get (whoisCache s) b = Some x \<longrightarrow> map_get (whoisCache s') b = Some x"
    proof (intro allI impI)
      fix b x assume b: "map_get (whoisCache s) b = Some x"
      with None have "b \<noteq> a" by auto
      with b have "map_get (whoisCache s2) b = Some x" by (simp add: c2)
      with ih(3) show "map_get (whoisCache s') b = Some x" by blast
    qed
    have f4: "set (map fst (issued ?new)) = {b \<in> set (a # ips). map_get (whoisCache s) b = None}"
      unfolding i using ih(4) None by (auto simp: c2 split: if_splits)
    have "a \<notin> set (map fst (issued new))" unfolding ih(4) by (simp add: c2)
    with ih(5) have f5: "distinct (map fst (issued ?new))" unfolding i by simp
    show ?thesis by (rule exI [of _ ?new]) (intro conjI f1 f2 f3 f4 f5)
  next
    case (Some x)
    with c1 have hit: "map_get (whoisCache s1) a = Some x" by simp
    from lookupIP_hit [OF hit, of w] have s2: "s2 = s1" by (simp add: s2_def)
    let ?new = "pr @ new"
    have i: "issued ?new = issued new" by (simp add: issued_append ipr)
    have f1: "events s' = events s @ ?new" using ih(1) e1 s2 by simp
    have f2: "\<forall>b\<in>set (a # ips). map_get (whoisCache s) b = None \<longrightarrow>
           (\<exists>t. Issue b t \<in> set ?new \<and> map_get (whoisCache s') b = Some (result_of w b t))"
    proof (intro ballI impI)
      fix b assume b: "b \<in> set (a # ips)" "map_get (whoisCache s) b = None"
      with Some have "b \<noteq> a" by auto
      with b have "b \<in> set ips" "map_get (whoisCache s2) b = None" by (simp_all add: s2 c1)
      with ih(2) obtain u where "Issue b u \<in> set new" "map_get (whoisCache s') b = Some (result_of w b u)"
        by blast
      then show "\<exists>t. Issue b t \<in> set ?new \<and> map_get (whoisCache s') b = Some (result_of w b t)"
        by (intro exI [of _ u]) simp
    qed
    have f3: "\<forall>b x. map_get (whoisCache s) b = Some x \<longrightarrow> map_get (whoisCache s') b = Some x"
      using ih(3) by (simp add: s2 c1)
    have f4: "set (map fst (issued ?new)) = {b \<in> set (a # ips). map_get (whoisCache s) b = None}"
      unfolding i using ih(4) Some by (auto simp: s2 c1)
    have f5: "distinct (map fst (issued ?new))" unfolding i by (rule ih(5))
    show ?thesis by (rule exI [of _ ?new]) (intro conjI f1 f2 f3 f4 f5)
  qed
qed



text \<open>
  C3.  \<^verbatim>\<open>lookupIPs\<close> returns for every list of addresses, in every world and from every
  state, and when it returns every address has been resolved or has failed: no query is
  running (every query dispatched during the call has completed); a query was dispatched
  during the call for exactly the addresses of the list that were not in the cache, once
  each; the result has an object for each address of the list and for no other, which is
  the cached object for an address that was in the cache and otherwise the object built
  from the answer to the query dispatched for it.  When that query fails with a message
  the object is the one of the \<^verbatim>\<open>catch\<close> block: no abuse contact, organization
  \<^verbatim>\<open>Unknown\<close>, no network range, country or raw text, and the message as the error; when
  it succeeds the object is the one of the \<^verbatim>\<open>try\<close> block, parsed from its output.  The
  failure of \<^verbatim>\<open>execAsync\<close> is the only exception of the component, and it is a value of
  the model (\<open>Inl\<close>) that \<^verbatim>\<open>lookupIP\<close> turns into the failure object, after which the loop
  goes on to the next address.
\<close>

theorem lookupIPs_never_raises:
  "\<exists>res s' new. lookupIPs w ips p s = (res, s') \<and> events s' = events s @ new
     \<and> one_at_a_time None new
     \<and> (\<forall>a\<in>set ips. \<exists>info. map_get res a = Some info)
     \<and> (\<forall>a. a \<notin> set ips \<longrightarrow> map_get res a = None)
     \<and> (\<forall>a\<in>set ips. map_get (whoisCache s) a = None \<longrightarrow>
           (\<exists>t. Issue a t \<in> set new \<and> map_get res a = Some (result_of w a t)))
     \<and> (\<forall>a\<in>set ips. \<forall>info. map_get (whoisCache s) a = Some info \<longrightarrow> map_get res a = Some info)
     \<and> set (map fst (issued new)) = {a \<in> set ips. map_get (whoisCache s) a = None}
     \<and> distinct (map fst (issued new))
     \<and> (\<forall>a t message. Issue a t \<in> set new \<and> whois w a t = Inl message \<longrightarrow>
           map_get res a = Some \<lparr>ip = a, abuseEmail = None, orgName = Some ''Unknown'',
                                  netRange = None, country = None, rawWhois = None,
                                  error = Some message\<rparr>)
     \<and> (\<forall>a t stdout. Issue a t \<in> set new \<and> whois w a t = Inr stdout \<longrightarrow>
           map_get res a = Some \<lparr>ip = a, abuseEmail = extractAbuseEmail stdout,
                                  orgName = Some (extractOrgName stdout),
                                  netRange = extractNetRange stdout,
                                  country = extractCountry stdout, rawWhois = Some stdout,
                                  error = None\<rparr>)"
proof -
  obtain res s' where l: "lookup_loop w p (length ips) 0 ips [] s = (res, s')"
    by (cases "lookup_loop w p (length ips) 0 ips [] s")
  from loop_results [OF l] obtain new where
    r: "\<forall>a. map_get res a = (if a \<in> set ips then map_get (whoisCache s') a else map_get [] a)"
       "\<forall>a\<in>set ips. map_get (whoisCache s') a \<noteq> None"
       "events s' = events s @ new"
       "\<forall>c t. Issue c t \<in> set new \<longrightarrow> c \<in> set ips \<and> map_get (whoisCache s') c = Some (result_of w c t)"
    by blast
  from loop_sequential [OF l] r(3) have f0: "one_at_a_time None new" by auto
  from loop_resolved [OF l] r(3) have
    q: "\<forall>a\<in>set ips. map_get (whoisCache s) a = None \<longrightarrow>
           (\<exists>t. Issue a t \<in> set new \<and> map_get (whoisCache s') a = Some (result_of w a t))"
       "\<forall>a x. map_get (whoisCache s) a = Some x \<longrightarrow> map_get (whoisCache s') a = Some x"
       "set (map fst (issued new)) = {a \<in> set ips. map_get (whoisCache s) a = None}"
       "distinct (map fst (issued new))" by auto
  have f1: "\<forall>a\<in>set ips. \<exists>info. map_get res a = Some info" using r(1,2) by auto
  have f2: "\<forall>a. a \<notin> set ips \<longrightarrow> map_get res a = None" using r(1) by (simp add: map_get_def)
  have f3: "\<forall>a t message. Issue a t \<in> set new \<and> whois w a t = Inl message \<longrightarrow>
           map_get res a = Some \<lparr>ip = a, abuseEmail = None, orgName = Some ''Unknown'',
                                  netRange = None, country = None, rawWhois = None,
                                  error = Some message\<rparr>"
    using r(1,4) by (auto simp: result_of_def failed_def)
  have f4: "\<forall>a t stdout. Issue a t \<in> set new \<and> whois w a t = Inr stdout \<longrightarrow>
           map_get res a = Some \<lparr>ip = a, abuseEmail = extractAbuseEmail stdout,
                                  orgName = Some (extractOrgName stdout),
                                  netRange = extractNetRange stdout,
                                  country = extractCountry stdout, rawWhois = Some stdout,
                                  error = None\<rparr>"
    using r(1,4) by (auto simp: result_of_def parsed_def)
  have f5: "\<forall>a\<in>set ips. map_get (whoisCache s) a = None \<longrightarrow>
           (\<exists>t. Issue a t \<in> set new \<and> map_get res a = Some (result_of w a t))"
    using q(1) r(1) by simp
  have f6: "\<forall>a\<in>set ips. \<forall>info. map_get (whoisCache s) a = Some info \<longrightarrow> map_get res a = Some info"
    using q(2) r(1) by simp
  show ?thesis
    by (intro exI [of _ res] exI [of _ s'] exI [of _ new] conjI f0 f1 f2 f3 f4 f5 f6 q(3) q(4) r(3))
       (simp add: lookupIPs_def l)
qed

text \<open>
  The theorem at a list of two addresses, the first answered and the second timing out:
  both are queried, the first gets the parsed object and the second the failure object.
\<close>

theorem lookupIPs_never_raises_witness:
  "(\<exists>t. Issue ''1.1.1.1'' t \<in>
          set (events (snd (lookupIPs sample_world [''8.8.8.8'', ''1.1.1.1''] False (initial 5000))))
        \<and> map_get (fst (lookupIPs sample_world [''8.8.8.8'', ''1.1.1.1''] False (initial 5000)))
             ''1.1.1.1'' =
           Some \<lparr>ip = ''1.1.1.1'', abuseEmail = None, orgName = Some ''Unknown'',
                 netRange = None, country = None, rawWhois = None, error = Some ''timeout''\<rparr>)
   \<and> (\<exists>t. Issue ''8.8.8.8'' t \<in>
          set (events (snd (lookupIPs sample_world [''8.8.8.8'', ''1.1.1.1''] False (initial 5000))))
        \<and> map_get (fst (lookupIPs sample_world [''8.8.8.8'', ''1.1.1.1''] False (initial 5000)))
             ''8.8.8.8'' =
           Some \<lparr>ip = ''8.8.8.8'', abuseEmail = extractAbuseEmail ''abuse: a@b.cd'',
                 orgName = Some (extractOrgName ''abuse: a@b.cd''),
                 netRange = extractNetRange ''abuse: a@b.cd'',
                 country = extractCountry ''abuse: a@b.cd'', rawWhois = Some ''abuse: a@b.cd'',
                 error = None\<rparr>)"
proof -
  let ?ips = "[''8.8.8.8'', ''1.1.1.1'']"
  have c: "map_get (whoisCache (initial 5000)) ''1.1.1.1'' = None"
          "map_get (whoisCache (initial 5000)) ''8.8.8.8'' = None"
    by (simp_all add: initial_def map_get_def)
  have fl: "\<And>t. whois sample_world ''1.1.1.1'' t = Inl ''timeout''"
           "\<And>t. whois sample_world ''8.8.8.8'' t = Inr ''abuse: a@b.cd''"
    by (simp_all add: sample_world_def)
  from lookupIPs_never_raises [of sample_world ?ips False "initial 5000"]
  obtain res s' new where
    r: "lookupIPs sample_world ?ips False (initial 5000) = (res, s')"
       "events s' = events (initial 5000) @ new"
       "\<forall>a\<in>set ?ips. map_get (whoisCache (initial 5000)) a = None \<longrightarrow>
           (\<exists>t. Issue a t \<in> set new \<and> map_get res a = Some (result_of sample_world a t))"
    by blast
  have e: "events s' = new" using r(2) by (simp add: initial_def)
  from r(3) c(1) obtain t1 where
    t1: "Issue ''1.1.1.1'' t1 \<in> set new" "map_get res ''1.1.1.1'' = Some (result_of sample_world ''1.1.1.1'' t1)"
    by auto
  from r(3) c(2) obtain t2 where
    t2: "Issue ''8.8.8.8'' t2 \<in> set new" "map_get res ''8.8.8.8'' = Some (result_of sample_world ''8.8.8.8'' t2)"
    by auto
  from t1 have A: "\<exists>t. Issue ''1.1.1.1'' t \<in> set (events s')
        \<and> map_get res ''1.1.1.1'' =
           Some \<lparr>ip = ''1.1.1.1'', abuseEmail = None, orgName = Some ''Unknown'',
                 netRange = None, country = None, rawWhois = None, error = Some ''timeout''\<rparr>"
    unfolding e by (intro exI [of _ t1]) (simp add: result_of_def fl failed_def)
  from t2 have B: "\<exists>t. Issue ''8.8.8.8'' t \<in> set (events s')
        \<and> map_get res ''8.8.8.8'' =
           Some \<lparr>ip = ''8.8.8.8'', abuseEmail = extractAbuseEmail ''abuse: a@b.cd'',
                 orgName = Some (extractOrgName ''abuse: a@b.cd''),
                 netRange = extractNetRange ''abuse: a@b.cd'',
                 country = extractCountry ''abuse: a@b.cd'', rawWhois = Some ''abuse: a@b.cd'',
                 error = None\<rparr>"
    unfolding e by (intro exI [of _ t2]) (simp add: result_of_def fl parsed_def)
  from A B show ?thesis by (simp only: r(1) fst_conv snd_conv) 
qed

text \<open>
  C6, as the code has it.  The trace of \<^verbatim>\<open>lookupIPs\<close> is, for each position k of the list
  in order, the call of the callback with the address, k + 1 and the length of the list
  (when a callback was passed), followed by the events of the lookup of that address, all
  about that address and none a callback call.  So the callback is called before the
  lookup of its address starts, hence before any query for it is dispatched, and after
  the lookup of the previous address has completed.
\<close>

theorem lookupIPs_progress_before_lookup:
  "\<exists>blocks. length blocks = length ips
     \<and> events (snd (lookupIPs w ips p s)) =
         events s @ concat (map (\<lambda>(k, a, b). (if p then [Progress a (k + 1) (length ips)] else []) @ b)
                                (zip [0..<length ips] (zip ips blocks)))
     \<and> (\<forall>(a, b)\<in>set (zip ips blocks). \<forall>e\<in>set b. of_lookup a e)"
proof -
  obtain res s' where l: "lookup_loop w p (length ips) 0 ips [] s = (res, s')"
    by (cases "lookup_loop w p (length ips) 0 ips [] s")
  from loop_blocks [OF l] l show ?thesis by (simp add: lookupIPs_def)
qed

text \<open>The theorem at one address whose lookup misses the cache.\<close>

theorem lookupIPs_progress_before_lookup_witness:
  "\<exists>b. events (snd (lookupIPs sample_world [''1.1.1.1''] True (initial 5000))) =
          Progress ''1.1.1.1'' 1 1 # b
        \<and> list_all (of_lookup ''1.1.1.1'') b"
proof -
  from lookupIPs_progress_before_lookup [of "[''1.1.1.1'']" sample_world True "initial 5000"]
  obtain blocks where
    b: "length blocks = 1"
       "events (snd (lookupIPs sample_world [''1.1.1.1''] True (initial 5000))) =
         events (initial 5000) @ concat (map (\<lambda>(k, a, b). (if True then [Progress a (k + 1) (length [''1.1.1.1''])] else []) @ b)
                                (zip [0..<length [''1.1.1.1'']] (zip [''1.1.1.1''] blocks)))"
       "\<forall>(a, b)\<in>set (zip [''1.1.1.1''] blocks). \<forall>e\<in>set b. of_lookup a e"
    by auto
  from b(1) obtain b0 where "blocks = [b0]"
    by (cases blocks) auto
  with b(2,3) show ?thesis
    by (simp add: initial_def list_all_iff)
qed

text \<open>
  C6 as the specification words it fails: for an address that is looked up, the callback
  is called first and the query is dispatched after it.
\<close>

theorem lookupIPs_progress_counterexample:
  "events (snd (lookupIPs sample_world [''1.1.1.1''] True (initial 5000))) =
     [Progress ''1.1.1.1'' 1 1, Issue ''1.1.1.1'' 5000, Complete ''1.1.1.1'' 5040]
   \<and> \<not> progress_after_dispatch []
          (events (snd (lookupIPs sample_world [''1.1.1.1''] True (initial 5000))))"
  by (simp add: lookupIPs_def lookupIP_def initial_def sample_world_def rateLimitDelay_def
        WHOIS_DELAY_def map_get_def Let_def)

section \<open>The matcher is sound for the language of a pattern\<close>

text \<open>
  The counter of \<open>rep_opt\<close> never cuts a quantifier short: once it exceeds the length of
  the remaining text its value does not matter, and \<open>rep_min\<close> starts it there.
\<close>

lemma rep_opt_fuel:
  "remaining st < n \<Longrightarrow> remaining st < m \<Longrightarrow> rep_opt f hi g n st = rep_opt f hi g m st"
proof (induction n arbitrary: m st hi)
  case 0
  then show ?case by simp
next
  case (Suc n)
  from Suc.prems(2) obtain m' where m: "m = Suc m'" by (cases m) auto
  have "map (rep_opt f (dec hi) g n) (filter (\<lambda>st'. remaining st' < remaining st) (f st)) =
        map (rep_opt f (dec hi) g m') (filter (\<lambda>st'. remaining st' < remaining st) (f st))"
  proof (rule map_cong [OF refl])
    fix mid assume "mid \<in> set (filter (\<lambda>st'. remaining st' < remaining st) (f st))"
    then have "remaining mid < remaining st" by simp
    with Suc.prems m have "remaining mid < n" "remaining mid < m'" by simp_all
    then show "rep_opt f (dec hi) g n mid = rep_opt f (dec hi) g m' mid" by (rule Suc.IH)
  qed
  then show ?case unfolding m by (simp only: rep_opt.simps)
qed

lemma rep_min_fuel:
  "remaining st < n \<Longrightarrow> rep_min f 0 hi g st = rep_opt f hi g n st"
  by (simp only: rep_min.simps) (rule rep_opt_fuel, simp_all)

lemma advance_nil [simp]: "advance st [] st"
  by (cases st) simp

lemma advance_trans: "advance st u mid \<Longrightarrow> advance mid v st' \<Longrightarrow> advance st (u @ v) st'"
  by (cases st; cases mid; cases st') simp

lemma step_sound: "st' \<in> set (step p st) \<Longrightarrow> \<exists>x. p x \<and> advance st [x] st' \<and> cap st' = cap st"
  by (induction p st rule: step.induct) (auto split: if_splits)

lemma assert_sound: "st' \<in> set (assert p st) \<Longrightarrow> st' = st"
  by (cases st) (auto split: if_splits)

lemma rep_opt_sound:
  assumes F: "\<And>st st'. st' \<in> set (f st) \<Longrightarrow> \<exists>u. advance st u st' \<and> u \<in> L"
  shows "st' \<in> set (rep_opt f hi g n st) \<Longrightarrow>
         \<exists>ws. advance st (concat ws) st' \<and> set ws \<subseteq> L \<and> (\<forall>h. hi = Some h \<longrightarrow> length ws \<le> h)"
proof (induction n arbitrary: st hi)
  case 0
  then have "st' = st" by simp
  then show ?case by (intro exI [of _ "[]"]) simp
next
  case (Suc n)
  show ?case
  proof (cases "st' = st")
    case True
    then show ?thesis by (intro exI [of _ "[]"]) simp
  next
    case False
    with Suc.prems have nz: "hi \<noteq> Some 0"
      and "\<exists>mid\<in>set (f st). st' \<in> set (rep_opt f (dec hi) g n mid)"
      by (auto simp: Let_def split: if_splits)
    then obtain mid where m: "mid \<in> set (f st)" "st' \<in> set (rep_opt f (dec hi) g n mid)" by blast
    from F [OF m(1)] obtain u where u: "advance st u mid" "u \<in> L" by blast
    from Suc.IH [OF m(2)] obtain ws where
      ws: "advance mid (concat ws) st'" "set ws \<subseteq> L" "\<forall>h. dec hi = Some h \<longrightarrow> length ws \<le> h"
      by blast
    have "advance st (concat (u # ws)) st'" using advance_trans [OF u(1) ws(1)] by simp
    moreover have "set (u # ws) \<subseteq> L" using u(2) ws(2) by simp
    moreover have "\<forall>h. hi = Some h \<longrightarrow> length (u # ws) \<le> h"
      using ws(3) nz by (cases hi) auto
    ultimately show ?thesis by blast
  qed
qed

lemma rep_min_sound:
  assumes F: "\<And>st st'. st' \<in> set (f st) \<Longrightarrow> \<exists>u. advance st u st' \<and> u \<in> L"
  shows "st' \<in> set (rep_min f lo hi g st) \<Longrightarrow>
         \<exists>ws. advance st (concat ws) st' \<and> set ws \<subseteq> L \<and> lo \<le> length ws
              \<and> (\<forall>h. hi = Some h \<and> lo \<le> h \<longrightarrow> length ws \<le> h)"
proof (induction lo arbitrary: st hi)
  case 0
  then have m: "st' \<in> set (rep_opt f hi g (Suc (remaining st)) st)" by simp
  have "\<exists>ws. advance st (concat ws) st' \<and> set ws \<subseteq> L \<and> (\<forall>h. hi = Some h \<longrightarrow> length ws \<le> h)"
    by (rule rep_opt_sound [where f = f and L = L, OF F m])
  then show ?case by auto
next
  case (Suc lo)
  then obtain mid where m: "mid \<in> set (f st)" "st' \<in> set (rep_min f lo (dec hi) g mid)" by auto
  from F [OF m(1)] obtain u where u: "advance st u mid" "u \<in> L" by blast
  from Suc.IH [OF m(2)] obtain ws where
    ws: "advance mid (concat ws) st'" "set ws \<subseteq> L" "lo \<le> length ws"
        "\<forall>h. dec hi = Some h \<and> lo \<le> h \<longrightarrow> length ws \<le> h"
    by blast
  have "advance st (concat (u # ws)) st'" using advance_trans [OF u(1) ws(1)] by simp
  moreover have "set (u # ws) \<subseteq> L" using u(2) ws(2) by simp
  moreover have "Suc lo \<le> length (u # ws)" using ws(3) by simp
  moreover have "\<forall>h. hi = Some h \<and> Suc lo \<le> h \<longrightarrow> length (u # ws) \<le> h"
    using ws(4) by (cases hi) auto
  ultimately show ?case by blast
qed

lemma rmatch_sound:
  "st' \<in> set (rmatch r ic st) \<Longrightarrow> \<exists>u. advance st u st' \<and> u \<in> lang r ic"
proof (induction r arbitrary: st st')
  case Eps
  then have "st' = st" by simp
  then show ?case by (intro exI [of _ "[]"]) simp
next
  case (Lit c)
  then have "st' \<in> set (step (lit_ok ic c) st)" by simp
  from step_sound [OF this] show ?case by auto
next
  case (Cls rs)
  then have "st' \<in> set (step (cls_ok ic rs) st)" by simp
  from step_sound [OF this] show ?case by auto
next
  case Dot
  then have "st' \<in> set (step (\<lambda>x. \<not> is_newline x) st)" by simp
  from step_sound [OF this] show ?case by auto
next
  case Ws
  then have "st' \<in> set (step is_space st)" by simp
  from step_sound [OF this] show ?case by auto
next
  case Wb
  then have "st' = st" by (auto dest: assert_sound)
  then show ?case by (intro exI [of _ "[]"]) simp
next
  case Bol
  then have "st' = st" by (auto dest: assert_sound)
  then show ?case by (intro exI [of _ "[]"]) simp
next
  case Eol
  then have "st' = st" by (auto dest: assert_sound)
  then show ?case by (intro exI [of _ "[]"]) simp
next
  case (Seq a b)
  then obtain mid where m: "mid \<in> set (rmatch a ic st)" "st' \<in> set (rmatch b ic mid)" by auto
  from Seq.IH(1) [OF m(1)] obtain u where u: "advance st u mid" "u \<in> lang a ic" by blast
  from Seq.IH(2) [OF m(2)] obtain v where v: "advance mid v st'" "v \<in> lang b ic" by blast
  from advance_trans [OF u(1) v(1)] u(2) v(2) show ?case
    by (intro exI [of _ "u @ v"]) auto
next
  case (Alt a b)
  then consider "st' \<in> set (rmatch a ic st)" | "st' \<in> set (rmatch b ic st)" by auto
  then show ?case
  proof cases
    case 1
    from Alt.IH(1) [OF this] show ?thesis by auto
  next
    case 2
    from Alt.IH(2) [OF this] show ?thesis by auto
  qed
next
  case (Rep lo hi g r)
  from Rep.prems have "st' \<in> set (rep_min (rmatch r ic) lo hi g st)" by simp
  from rep_min_sound [of "rmatch r ic" "lang r ic", OF Rep.IH this] show ?case by auto
next
  case (Grp r)
  then obtain mid where m: "mid \<in> set (rmatch r ic st)" "st' = capture st mid" by auto
  from Grp.IH [OF m(1)] obtain u where "advance st u mid" "u \<in> lang r ic" by blast
  with m(2) show ?case by (cases st; cases mid) auto
qed

lemma rep_opt_cap:
  assumes F: "\<And>st st'. st' \<in> set (f st) \<Longrightarrow> cap st' = cap st \<or> P (cap st')"
  shows "st' \<in> set (rep_opt f hi g n st) \<Longrightarrow> cap st' = cap st \<or> P (cap st')"
proof (induction n arbitrary: st hi)
  case 0
  then show ?case by simp
next
  case (Suc n)
  show ?case
  proof (cases "st' = st")
    case True
    then show ?thesis by simp
  next
    case False
    with Suc.prems have "\<exists>mid\<in>set (f st). st' \<in> set (rep_opt f (dec hi) g n mid)"
      by (auto simp: Let_def split: if_splits)
    then obtain mid where m: "mid \<in> set (f st)" "st' \<in> set (rep_opt f (dec hi) g n mid)" by blast
    from F [OF m(1)] Suc.IH [OF m(2)] show ?thesis by auto
  qed
qed

lemma rep_min_cap:
  assumes F: "\<And>st st'. st' \<in> set (f st) \<Longrightarrow> cap st' = cap st \<or> P (cap st')"
  shows "st' \<in> set (rep_min f lo hi g st) \<Longrightarrow> cap st' = cap st \<or> P (cap st')"
proof (induction lo arbitrary: st hi)
  case 0
  then have m: "st' \<in> set (rep_opt f hi g (Suc (remaining st)) st)" by simp
  show ?case by (rule rep_opt_cap [where f = f and P = P, OF F m])
next
  case (Suc lo)
  then obtain mid where m: "mid \<in> set (f st)" "st' \<in> set (rep_min f lo (dec hi) g mid)" by auto
  from F [OF m(1)] Suc.IH [OF m(2)] show ?case by auto
qed

lemma rmatch_cap:
  "st' \<in> set (rmatch r ic st) \<Longrightarrow> cap st' = cap st \<or> captured r ic (cap st')"
proof (induction r arbitrary: st st')
  case (Seq a b)
  then obtain mid where m: "mid \<in> set (rmatch a ic st)" "st' \<in> set (rmatch b ic mid)" by auto
  from Seq.IH(1) [OF m(1)] Seq.IH(2) [OF m(2)] show ?case
    by (auto simp: captured_def)
next
  case (Alt a b)
  then consider "st' \<in> set (rmatch a ic st)" | "st' \<in> set (rmatch b ic st)" by auto
  then show ?case
  proof cases
    case 1
    from Alt.IH(1) [OF this] show ?thesis by (auto simp: captured_def)
  next
    case 2
    from Alt.IH(2) [OF this] show ?thesis by (auto simp: captured_def)
  qed
next
  case (Rep lo hi g r)
  from Rep.prems have m: "st' \<in> set (rep_min (rmatch r ic) lo hi g st)" by simp
  have "cap st' = cap st \<or> captured r ic (cap st')"
    by (rule rep_min_cap [where f = "rmatch r ic" and P = "captured r ic", OF Rep.IH m])
  then show ?case by (simp add: captured_def)
next
  case (Grp r)
  then obtain mid where m: "mid \<in> set (rmatch r ic st)" "st' = capture st mid" by auto
  from rmatch_sound [OF m(1)] obtain u where "advance st u mid" "u \<in> lang r ic" by blast
  with m(2) have "cap st' = Some u" by (cases st; cases mid) auto
  with \<open>u \<in> lang r ic\<close> show ?case by (simp add: captured_def)
next
  case (Lit c)
  then have "st' \<in> set (step (lit_ok ic c) st)" by simp
  from step_sound [OF this] show ?case by auto
next
  case (Cls rs)
  then have "st' \<in> set (step (cls_ok ic rs) st)" by simp
  from step_sound [OF this] show ?case by auto
next
  case Dot
  then have "st' \<in> set (step (\<lambda>x. \<not> is_newline x) st)" by simp
  from step_sound [OF this] show ?case by auto
next
  case Ws
  then have "st' \<in> set (step is_space st)" by simp
  from step_sound [OF this] show ?case by auto
qed (auto dest: assert_sound)

lemma exec_at_Some:
  "exec_at r ic l s = Some st' \<Longrightarrow> st' \<in> set (rmatch r ic (l, s, None))"
  by (auto simp: exec_at_def split: list.splits)

lemma search_Some:
  "search r ic l s = Some st' \<Longrightarrow>
   \<exists>l' s'. rev l' @ s' = rev l @ s \<and> st' \<in> set (rmatch r ic (l', s', None))"
proof (induction s arbitrary: l)
  case Nil
  then show ?case by (auto dest: exec_at_Some)
next
  case (Cons x xs)
  show ?case
  proof (cases "exec_at r ic l (x # xs)")
    case None
    with Cons.prems have "search r ic (x # l) xs = Some st'" by simp
    from Cons.IH [OF this] show ?thesis by auto
  next
    case (Some st)
    with Cons.prems have "st = st'" by simp
    with Some show ?thesis by (auto dest: exec_at_Some)
  qed
qed

lemma match1_captured:
  "match1 r ic s = Some c \<Longrightarrow> captured r ic (Some c)"
proof -
  assume a: "match1 r ic s = Some c"
  then obtain l' s' where st: "search r ic [] s = Some (l', s', Some c)"
    by (auto simp: match1_def split: option.splits)
  from search_Some [OF this] obtain l0 s0 where
    "(l', s', Some c) \<in> set (rmatch r ic (l0, s0, None))" by blast
  from rmatch_cap [OF this] show ?thesis by simp
qed

lemma first_capture_Some:
  "first_capture ps s = Some c \<Longrightarrow> \<exists>p\<in>set ps. match1 p True s = Some c"
  by (induction ps) (auto split: option.splits if_splits)

lemma first_line_capture_Some:
  "first_line_capture ps ls = Some c \<Longrightarrow> \<exists>p\<in>set ps. \<exists>line\<in>set ls. match1 p True line = Some c"
  by (induction ls) (auto split: option.splits dest: first_capture_Some)

lemma groups_str: "group_bodies (str s) = []"
proof (induction s)
  case Nil
  then show ?case by (simp add: str_def)
next
  case (Cons x xs)
  then show ?case by (cases xs) (auto simp: str_def)
qed

lemma groups_EMAIL: "group_bodies EMAIL = [EMAIL_BODY]"
  by (simp add: EMAIL_def EMAIL_BODY_def Plus_def cls_def)

section \<open>A parsed abuse contact is never the sentinel key\<close>

lemma code_of_char: "code c = of_char c"
  by (cases c) (simp add: of_char_def)

lemma toUpper_dot: "toUpper x = CHR ''.'' \<Longrightarrow> x = CHR ''.''"
proof -
  assume a: "toUpper x = CHR ''.''"
  show ?thesis
  proof (cases "97 \<le> code x \<and> code x \<le> 122")
    case True
    with a have "char_of (code x - 32) = CHR ''.''" by (simp add: toUpper_def Let_def)
    then have "(of_char (char_of (code x - 32) :: char) :: int) = of_char CHR ''.''" by simp
    with True show ?thesis by (simp add: of_char_of)
  next
    case False
    with a show ?thesis by (auto simp: toUpper_def Let_def)
  qed
qed

lemma toLower_dot: "toLower CHR ''.'' = CHR ''.''"
  by (simp add: toLower_def)

lemma lit_dot: "lit_ok True CHR ''.'' x \<Longrightarrow> x = CHR ''.''"
proof -
  have "toUpper CHR ''.'' = CHR ''.''" by (simp add: toUpper_def)
  then show "lit_ok True CHR ''.'' x \<Longrightarrow> x = CHR ''.''"
    by (simp add: lit_ok_def toUpper_dot)
qed

lemma email_body_dot: "u \<in> lang EMAIL_BODY True \<Longrightarrow> CHR ''.'' \<in> set u"
  by (auto simp: EMAIL_BODY_def Plus_def dest: lit_dot)

lemma abusePatterns_groups: "p \<in> set abusePatterns \<Longrightarrow> group_bodies p = [EMAIL_BODY]"
  by (auto simp: abusePatterns_def groups_str groups_EMAIL LazyStar_def Star_def)

lemma extractAbuseEmail_dot:
  "extractAbuseEmail out = Some e \<Longrightarrow> CHR ''.'' \<in> set e"
proof -
  assume "extractAbuseEmail out = Some e"
  then obtain c where c: "first_line_capture abusePatterns (split_on (CHR 0x0A) out) = Some c"
    and e: "e = map toLower c"
    by (auto simp: extractAbuseEmail_def split: option.splits)
  from first_line_capture_Some [OF c] obtain p line where
    p: "p \<in> set abusePatterns" "match1 p True line = Some c" by blast
  from match1_captured [OF p(2)] abusePatterns_groups [OF p(1)]
  have "c \<in> lang EMAIL_BODY True" by (simp add: captured_def)
  then have "CHR ''.'' \<in> set c" by (rule email_body_dot)
  then have "toLower CHR ''.'' \<in> toLower ` set c" by (rule imageI)
  with e show ?thesis by (simp add: toLower_dot)
qed

lemma emails_loop_sources:
  "e \<in> set (emails_loop groups ipLogMap opts clock k) \<Longrightarrow>
   \<exists>key infos. (key, infos) \<in> set groups \<and> key \<noteq> ''unknown@unknown''
       \<and> mail_to e = key \<and> mail_ips e = map ip infos"
proof (induction groups ipLogMap opts clock k rule: emails_loop.induct)
  case (1 ipLogMap opts clock k)
  then show ?case by simp
next
  case (2 abuse ipInfos groups ipLogMap opts clock k)
  show ?case
  proof (cases "abuse = ''unknown@unknown''")
    case True
    with 2 show ?thesis by auto
  next
    case False
    with 2 show ?thesis by (auto simp: generateEmail_def)
  qed
qed

lemma group_member:
  "(key, infos) \<in> set (groupByAbuseEmail rs) \<Longrightarrow>
   infos = filter (\<lambda>info. group_key info = key) (map snd rs)"
proof -
  assume m: "(key, infos) \<in> set (groupByAbuseEmail rs)"
  have "distinct (map fst (groupByAbuseEmail rs))"
    unfolding groupByAbuseEmail_def by (rule group_fold_distinct) simp
  with m have "map_of (groupByAbuseEmail rs) key = Some infos" by simp
  then show ?thesis by (simp add: group_get [unfolded map_get_def] split: if_splits)
qed

lemma summary_of_group:
  "map_get groups ''unknown@unknown'' = Some g \<Longrightarrow> g \<noteq> [] \<Longrightarrow>
   generateUnknownIPsSummary groups = Some (join [CHR 0x0A] (summary_lines g))"
  by (simp add: generateUnknownIPsSummary_def)

lemma summary_lines_ip: "info \<in> set g \<Longrightarrow> ''  '' @ ip info \<in> set (summary_lines g)"
  by (auto simp: summary_lines_def unknown_lines_def)

text \<open>
  C10, as the code has it.  No WHOIS output is parsed to the contact
  \<^verbatim>\<open>unknown@unknown\<close>: all five patterns capture a text with a dot after the \<^verbatim>\<open>@\<close>.  A
  record whose abuse contact is nevertheless that text (built by a caller of the grouping
  functions) cannot be told from an unresolved one: \<^verbatim>\<open>groupByAbuseEmail\<close> puts it into the
  group of the sentinel key, with the records that have no contact; the summary of
  \<^verbatim>\<open>generateUnknownIPsSummary\<close> has the line of its address; \<^verbatim>\<open>generateAllEmails\<close> builds
  no message addressed to the sentinel key, and none that lists its address when the
  records have distinct addresses.
\<close>

theorem unknown_contact_is_unresolved:
  "(\<forall>out. extractAbuseEmail out \<noteq> Some ''unknown@unknown'')
   \<and> (\<forall>info\<in>set (map snd rs). abuseEmail info = Some ''unknown@unknown'' \<longrightarrow>
        (\<exists>g. map_get (groupByAbuseEmail rs) ''unknown@unknown'' = Some g \<and> info \<in> set g
            \<and> (\<forall>other\<in>set (map snd rs). abuseEmail other = None \<longrightarrow> other \<in> set g)
            \<and> generateUnknownIPsSummary (groupByAbuseEmail rs) =
                Some (join [CHR 0x0A] (summary_lines g))
            \<and> ''  '' @ ip info \<in> set (summary_lines g))
        \<and> (\<forall>e\<in>set (generateAllEmails (groupByAbuseEmail rs) ipLogMap opts clock).
              mail_to e \<noteq> ''unknown@unknown''
              \<and> (distinct (map (\<lambda>r. ip (snd r)) rs) \<longrightarrow> ip info \<notin> set (mail_ips e))))"
proof (intro conjI ballI impI allI)
  fix out show "extractAbuseEmail out \<noteq> Some ''unknown@unknown''"
    by (auto dest: extractAbuseEmail_dot)
next
  fix info assume i: "info \<in> set (map snd rs)" and a: "abuseEmail info = Some ''unknown@unknown''"
  let ?g = "filter (\<lambda>i. group_key i = ''unknown@unknown'') (map snd rs)"
  from a have k: "group_key info = ''unknown@unknown''" by (simp add: group_key_def)
  with i have m: "info \<in> set ?g" by simp
  have ne: "?g \<noteq> []"
  proof
    assume "?g = []"
    with m show False by (simp only: set_simps empty_iff)
  qed
  then have g: "map_get (groupByAbuseEmail rs) ''unknown@unknown'' = Some ?g"
    by (simp add: group_get)
  have o: "\<forall>other\<in>set (map snd rs). abuseEmail other = None \<longrightarrow> other \<in> set ?g"
    by (auto simp: group_key_def unknown_def)
  from g m o summary_of_group [OF g ne] summary_lines_ip [OF m]
  show "\<exists>g. map_get (groupByAbuseEmail rs) ''unknown@unknown'' = Some g \<and> info \<in> set g
            \<and> (\<forall>other\<in>set (map snd rs). abuseEmail other = None \<longrightarrow> other \<in> set g)
            \<and> generateUnknownIPsSummary (groupByAbuseEmail rs) =
                Some (join [CHR 0x0A] (summary_lines g))
            \<and> ''  '' @ ip info \<in> set (summary_lines g)"
    by (intro exI [of _ ?g] conjI)
next
  fix info e assume "e \<in> set (generateAllEmails (groupByAbuseEmail rs) ipLogMap opts clock)"
  then show "mail_to e \<noteq> ''unknown@unknown''"
    by (auto simp: generateAllEmails_def dest: emails_loop_sources)
next
  fix info e
  assume i: "info \<in> set (map snd rs)" and a: "abuseEmail info = Some ''unknown@unknown''"
    and e: "e \<in> set (generateAllEmails (groupByAbuseEmail rs) ipLogMap opts clock)"
    and d: "distinct (map (\<lambda>r. ip (snd r)) rs)"
  from e obtain key infos where
    s: "(key, infos) \<in> set (groupByAbuseEmail rs)" "key \<noteq> ''unknown@unknown''"
       "mail_ips e = map ip infos"
    by (auto simp: generateAllEmails_def dest: emails_loop_sources)
  from group_member [OF s(1)] have f: "infos = filter (\<lambda>info. group_key info = key) (map snd rs)" .
  from a have k: "group_key info = ''unknown@unknown''" by (simp add: group_key_def)
  show "ip info \<notin> set (mail_ips e)"
  proof
    assume "ip info \<in> set (mail_ips e)"
    with s(3) f have "\<exists>other\<in>set (map snd rs). group_key other = key \<and> ip info = ip other"
      by (simp add: image_iff) blast
    then obtain other where
      o: "other \<in> set (map snd rs)" "group_key other = key" "ip info = ip other" by blast
    from d have inj: "inj_on (\<lambda>r. ip (snd r)) (set rs)" by (simp add: distinct_map)
    from o(1) obtain r1 where r1: "r1 \<in> set rs" "other = snd r1" by auto
    from i obtain r2 where r2: "r2 \<in> set rs" "info = snd r2" by auto
    from inj r1 r2 o(3) have "r1 = r2" by (auto dest: inj_onD)
    with r1 r2 have "other = info" by simp
    with o(2) k s(2) show False by simp
  qed
qed

text \<open>The theorem at such a record and a failed lookup.\<close>

theorem unknown_contact_is_unresolved_witness:
  "\<exists>g. map_get (groupByAbuseEmail
            [(''9.9.9.9'', sample_collision), (''1.1.1.1'', failed ''1.1.1.1'' ''timeout'')])
          ''unknown@unknown'' = Some g
     \<and> sample_collision \<in> set g \<and> failed ''1.1.1.1'' ''timeout'' \<in> set g
     \<and> ''  9.9.9.9'' \<in> set (summary_lines g)"
proof -
  let ?rs = "[(''9.9.9.9'', sample_collision), (''1.1.1.1'', failed ''1.1.1.1'' ''timeout'')]"
  have a: "abuseEmail sample_collision = Some ''unknown@unknown''" "ip sample_collision = ''9.9.9.9''"
    by (simp_all add: sample_collision_def)
  have n: "abuseEmail (failed ''1.1.1.1'' ''timeout'') = None" by (simp add: failed_def)
  have m: "sample_collision \<in> set (map snd ?rs)" "failed ''1.1.1.1'' ''timeout'' \<in> set (map snd ?rs)"
    by simp_all
  from unknown_contact_is_unresolved [of ?rs "[]" "\<lparr>senderEmail = None, senderName = None, senderOrg = None, maxLogsPerIP = None\<rparr>" "\<lambda>k. ([], [])"]
  have "\<forall>info\<in>set (map snd ?rs). abuseEmail info = Some ''unknown@unknown'' \<longrightarrow>
        (\<exists>g. map_get (groupByAbuseEmail ?rs) ''unknown@unknown'' = Some g \<and> info \<in> set g
            \<and> (\<forall>other\<in>set (map snd ?rs). abuseEmail other = None \<longrightarrow> other \<in> set g)
            \<and> generateUnknownIPsSummary (groupByAbuseEmail ?rs) =
                Some (join [CHR 0x0A] (summary_lines g))
            \<and> ''  '' @ ip info \<in> set (summary_lines g))"
    by blast
  with m(1) a(1) obtain g where
    g: "map_get (groupByAbuseEmail ?rs) ''unknown@unknown'' = Some g" "sample_collision \<in> set g"
       "\<forall>other\<in>set (map snd ?rs). abuseEmail other = None \<longrightarrow> other \<in> set g"
       "''  '' @ ip sample_collision \<in> set (summary_lines g)" by blast
  from g(3) m(2) n have "failed ''1.1.1.1'' ''timeout'' \<in> set g" by blast
  with g(1,2,4) a(2) show ?thesis by (intro exI [of _ g]) simp
qed

text \<open>
  C10 as the specification words it fails: there is no directory text from which the
  contact \<^verbatim>\<open>unknown@unknown\<close> is parsed; a line that names it yields no contact.
\<close>

theorem extractAbuseEmail_unknown_counterexample:
  "extractAbuseEmail ''abuse-mailbox: unknown@unknown'' = None
   \<and> \<not> (\<exists>out. extractAbuseEmail out = Some ''unknown@unknown'')"
proof -
  have "extractAbuseEmail ''abuse-mailbox: unknown@unknown'' = None" by code_simp
  moreover have "\<not> (\<exists>out. extractAbuseEmail out = Some ''unknown@unknown'')"
    by (auto dest: extractAbuseEmail_dot)
  ultimately show ?thesis by blast
qed

section \<open>Private addresses and the documented rule table\<close>

lemma matched_advance: "advance (l, s, c) u st' \<Longrightarrow> matched l st' = u"
  by (cases st') simp

lemma exec_at_lang: "exec_at r ic l s = Some st' \<Longrightarrow> matched l st' \<in> lang r ic"
proof -
  assume "exec_at r ic l s = Some st'"
  from rmatch_sound [OF exec_at_Some [OF this]] obtain u where
    "advance (l, s, None) u st'" "u \<in> lang r ic" by blast
  then show ?thesis by (simp add: matched_advance)
qed

lemma match_all_lang: "a \<in> set (match_all r ic skip l s) \<Longrightarrow> a \<in> lang r ic"
proof (induction s arbitrary: skip l)
  case Nil
  show ?case
  proof (cases "exec_at r ic l []")
    case None
    with Nil show ?thesis by (simp split: if_splits)
  next
    case (Some st)
    with Nil have "a = matched l st" by (simp split: if_splits)
    with exec_at_lang [OF Some] show ?thesis by simp
  qed
next
  case (Cons x xs)
  show ?case
  proof (cases "0 < skip")
    case True
    with Cons.prems have "a \<in> set (match_all r ic (skip - 1) (x # l) xs)" by simp
    then show ?thesis by (rule Cons.IH)
  next
    case False
    show ?thesis
    proof (cases "exec_at r ic l (x # xs)")
      case None
      with False Cons.prems have "a \<in> set (match_all r ic 0 (x # l) xs)" by simp
      then show ?thesis by (rule Cons.IH)
    next
      case (Some st)
      with False Cons.prems consider "a = matched l st"
        | "a \<in> set (match_all r ic (length (matched l st) - 1) (x # l) xs)" by auto
      then show ?thesis
      proof cases
        case 1
        with exec_at_lang [OF Some] show ?thesis by simp
      next
        case 2
        then show ?thesis by (rule Cons.IH)
      qed
    qed
  qed
qed

lemma extractIPs_lang:
  "a \<in> set (extractIPs line) \<Longrightarrow> a \<in> lang IPV4_REGEX False \<or> a \<in> lang IPV6_REGEX False"
  by (auto simp: extractIPs_def match_g_def dest: match_all_lang)

lemma seq_Bol:
  "st' \<in> set (rmatch (Seq Bol r) ic (l, s, c)) \<Longrightarrow> l = [] \<and> st' \<in> set (rmatch r ic (l, s, c))"
  by (auto split: if_splits)

lemma test_anchored:
  assumes "test (Seq Bol r) ic a"
  shows "\<exists>u rest st'. a = u @ rest \<and> u \<in> lang r ic \<and> st' \<in> set (rmatch r ic ([], a, None))
           \<and> advance ([], a, None) u st'"
proof -
  from assms obtain st' where "search (Seq Bol r) ic [] a = Some st'"
    by (auto simp: test_def)
  from search_Some [OF this] obtain l' s' where
    p: "rev l' @ s' = a" "st' \<in> set (rmatch (Seq Bol r) ic (l', s', None))" by auto
  from seq_Bol [OF p(2)] p(1) have m: "st' \<in> set (rmatch r ic ([], a, None))" by auto
  from rmatch_sound [OF m] obtain u where u: "advance ([], a, None) u st'" "u \<in> lang r ic" by blast
  then have "\<exists>rest. a = u @ rest" by (cases st') auto
  with u m show ?thesis by blast
qed

lemma lang_Lit: "u \<in> lang (Lit c) False \<longleftrightarrow> u = [c]"
  by (auto simp: lit_ok_def)

lemma lang_cls1:
  "u \<in> lang (cls [(lo, hi)]) False \<longleftrightarrow> (\<exists>x. u = [x] \<and> code lo \<le> code x \<and> code x \<le> code hi)"
  by (auto simp: cls_def cls_ok_def in_range_def Let_def)

lemma lang_Opt: "u \<in> lang (Opt r) ic \<longleftrightarrow> u = [] \<or> u \<in> lang r ic"
proof
  assume "u \<in> lang (Opt r) ic"
  then obtain ws where ws: "u = concat ws" "set ws \<subseteq> lang r ic" "length ws \<le> 1"
    by (auto simp: Opt_def)
  show "u = [] \<or> u \<in> lang r ic"
  proof (cases ws)
    case Nil
    with ws show ?thesis by simp
  next
    case (Cons w ws')
    with ws(3) have "ws' = []" by simp
    with Cons ws show ?thesis by simp
  qed
next
  assume "u = [] \<or> u \<in> lang r ic"
  then show "u \<in> lang (Opt r) ic"
  proof
    assume "u = []"
    then have "u = concat []" by simp
    then show ?thesis unfolding Opt_def lang.simps by (intro CollectI exI [of _ "[]"]) simp
  next
    assume "u \<in> lang r ic"
    then show ?thesis unfolding Opt_def lang.simps by (intro CollectI exI [of _ "[u]"]) simp
  qed
qed

lemma lang_Times3:
  "u \<in> lang (Times 3 3 r) ic \<Longrightarrow> \<exists>a b c. u = a @ b @ c \<and> a \<in> lang r ic \<and> b \<in> lang r ic \<and> c \<in> lang r ic"
proof -
  assume "u \<in> lang (Times 3 3 r) ic"
  then obtain ws where ws: "u = concat ws" "set ws \<subseteq> lang r ic" "length ws = 3"
    by (auto simp: Times_def)
  from ws(3) obtain a b c where "ws = [a, b, c]"
    by (auto simp: length_Suc_conv numeral_3_eq_3)
  with ws show ?thesis by auto
qed

lemma lang_Seq:
  "w \<in> lang (Seq a b) ic \<longleftrightarrow> (\<exists>u v. w = u @ v \<and> u \<in> lang a ic \<and> v \<in> lang b ic)"
  by auto

lemma lang_Alt: "w \<in> lang (Alt a b) ic \<longleftrightarrow> w \<in> lang a ic \<or> w \<in> lang b ic"
  by simp

lemma lang_octet:
  assumes "u \<in> lang octet False"
  shows "list_all is_digit u \<and> (\<exists>v. decimal u = Some v \<and> v \<le> 255)"
proof -
  from assms consider
      (a) "u \<in> lang (seqs [str ''25'', cls [(CHR ''0'', CHR ''5'')]]) False"
    | (b) "u \<in> lang (seqs [Lit CHR ''2'', cls [(CHR ''0'', CHR ''4'')], digit]) False"
    | (c) "u \<in> lang (seqs [Opt (cls [(CHR ''0'', CHR ''1'')]), digit, Opt digit]) False"
    unfolding octet_def alts.simps lang_Alt by blast
  then show ?thesis
  proof cases
    case a
    then have "\<exists>x. u = [CHR ''2'', CHR ''5'', x] \<and> 48 \<le> code x \<and> code x \<le> 53"
      by (auto simp add: str_def lang_Seq lang_Lit lang_cls1 simp del: lang.simps)
    then obtain x where "u = [CHR ''2'', CHR ''5'', x]" "48 \<le> code x" "code x \<le> 53" by blast
    then show ?thesis
      by (simp add: is_digit_def decimal_def digit_val_def)
  next
    case b
    then have "\<exists>x y. u = [CHR ''2'', x, y] \<and> 48 \<le> code x \<and> code x \<le> 52
        \<and> 48 \<le> code y \<and> code y \<le> 57"
      by (auto simp add: digit_def lang_Seq lang_Lit lang_cls1 simp del: lang.simps)
    then obtain x y where "u = [CHR ''2'', x, y]" "48 \<le> code x" "code x \<le> 52"
        "48 \<le> code y" "code y \<le> 57" by blast
    then show ?thesis
      by (simp add: is_digit_def decimal_def digit_val_def)
  next
    case c
    then have "\<exists>p y q. u = p @ [y] @ q \<and> 48 \<le> code y \<and> code y \<le> 57
        \<and> (p = [] \<or> (\<exists>x. p = [x] \<and> 48 \<le> code x \<and> code x \<le> 49))
        \<and> (q = [] \<or> (\<exists>z. q = [z] \<and> 48 \<le> code z \<and> code z \<le> 57))"
      by (simp add: digit_def lang_Seq lang_Opt lang_cls1 del: lang.simps)
         (elim exE conjE, hypsubst, intro exI conjI, auto)
    then obtain p y q where u: "u = p @ [y] @ q" "48 \<le> code y" "code y \<le> 57"
        and p: "p = [] \<or> (\<exists>x. p = [x] \<and> 48 \<le> code x \<and> code x \<le> 49)"
        and q: "q = [] \<or> (\<exists>z. q = [z] \<and> 48 \<le> code z \<and> code z \<le> 57)"
      by blast
    from p q u show ?thesis
      by (auto simp: is_digit_def decimal_def digit_val_def)
  qed
qed

lemma lang_IPV4:
  assumes "a \<in> lang IPV4_REGEX False"
  shows "\<exists>o1 o2 o3 o4. a = o1 @ CHR ''.'' # o2 @ CHR ''.'' # o3 @ CHR ''.'' # o4
           \<and> o1 \<in> lang octet False \<and> o2 \<in> lang octet False
           \<and> o3 \<in> lang octet False \<and> o4 \<in> lang octet False"
proof -
  from assms have "\<exists>t o4. a = t @ o4 \<and> t \<in> lang (Times 3 3 (Seq octet (Lit CHR ''.''))) False
      \<and> o4 \<in> lang octet False"
    by (simp add: IPV4_REGEX_def lang_Seq del: lang.simps) (simp add: lang_Seq)
  then obtain t o4 where a: "a = t @ o4" "t \<in> lang (Times 3 3 (Seq octet (Lit CHR ''.''))) False"
      "o4 \<in> lang octet False" by blast
  from lang_Times3 [OF a(2)] obtain x y z where
    t: "t = x @ y @ z" "x \<in> lang (Seq octet (Lit CHR ''.'')) False"
       "y \<in> lang (Seq octet (Lit CHR ''.'')) False" "z \<in> lang (Seq octet (Lit CHR ''.'')) False"
    by blast
  have d: "\<And>w. w \<in> lang (Seq octet (Lit CHR ''.'')) False \<Longrightarrow> \<exists>v. w = v @ [CHR ''.''] \<and> v \<in> lang octet False"
    by (simp add: lang_Seq lang_Lit del: lang.simps)
  from d [OF t(2)] d [OF t(3)] d [OF t(4)] obtain o1 o2 o3 where
    "x = o1 @ [CHR ''.'']" "y = o2 @ [CHR ''.'']" "z = o3 @ [CHR ''.'']"
    "o1 \<in> lang octet False" "o2 \<in> lang octet False" "o3 \<in> lang octet False"
    by blast
  with a t show ?thesis by auto
qed

lemma split_on_field:
  "sep \<notin> set u \<Longrightarrow> split_on sep (u @ sep # rest) = u # split_on sep rest"
  by (induction u) (auto split: list.splits)

lemma split_on_last: "sep \<notin> set u \<Longrightarrow> split_on sep u = [u]"
  by (induction u) (auto split: list.splits)

lemma digits_no_dot: "list_all is_digit u \<Longrightarrow> CHR ''.'' \<notin> set u"
  by (auto simp: list_all_iff is_digit_def)

lemma digits_prefix_unique:
  assumes "list_all is_digit x" "list_all is_digit y" "x @ CHR ''.'' # r1 = y @ CHR ''.'' # r2"
  shows "x = y \<and> r1 = r2"
proof -
  have nd: "\<not> is_digit CHR ''.''" by (simp add: is_digit_def)
  from assms(1) nd have "takeWhile is_digit (x @ CHR ''.'' # r1) = x"
    by (simp add: list_all_iff takeWhile_append2)
  moreover from assms(2) nd have "takeWhile is_digit (y @ CHR ''.'' # r2) = y"
    by (simp add: list_all_iff takeWhile_append2)
  ultimately have "x = y" using assms(3) by simp
  with assms(3) show ?thesis by simp
qed

lemma quad_of_fields:
  assumes "list_all is_digit o1" "list_all is_digit o2" "list_all is_digit o3" "list_all is_digit o4"
    and "decimal o1 = Some v1" "decimal o2 = Some v2" "decimal o3 = Some v3" "decimal o4 = Some v4"
    and "v1 \<le> 255" "v2 \<le> 255" "v3 \<le> 255" "v4 \<le> 255"
  shows "quad (o1 @ CHR ''.'' # o2 @ CHR ''.'' # o3 @ CHR ''.'' # o4) = Some (v1, v2, v3, v4)"
  using assms
  by (simp add: quad_def split_on_field split_on_last digits_no_dot)

lemma block8:
  "v2 \<le> 255 \<Longrightarrow> v3 \<le> 255 \<Longrightarrow> v4 \<le> 255 \<Longrightarrow>
   in_block 32 (ipv4_number (v1, v2, v3, v4)) (ipv4_number (v1, 0, 0, 0)) 8"
  by (simp add: in_block_def)

lemma block16:
  "v3 \<le> 255 \<Longrightarrow> v4 \<le> 255 \<Longrightarrow>
   in_block 32 (ipv4_number (v1, v2, v3, v4)) (ipv4_number (v1, v2, 0, 0)) 16"
  by (simp add: in_block_def)

lemma block12:
  "16 \<le> v2 \<Longrightarrow> v2 \<le> 31 \<Longrightarrow> v3 \<le> 255 \<Longrightarrow> v4 \<le> 255 \<Longrightarrow>
   in_block 32 (ipv4_number (172, v2, v3, v4)) (ipv4_number (172, 16, 0, 0)) 12"
  by (simp add: in_block_def)

lemma block10:
  "64 \<le> v2 \<Longrightarrow> v2 \<le> 127 \<Longrightarrow> v3 \<le> 255 \<Longrightarrow> v4 \<le> 255 \<Longrightarrow>
   in_block 32 (ipv4_number (100, v2, v3, v4)) (ipv4_number (100, 64, 0, 0)) 10"
  by (simp add: in_block_def)

lemma code_inj: "code x = code y \<Longrightarrow> x = y"
  by (simp add: code_of_char)

lemma code_char_of: "0 \<le> n \<Longrightarrow> n < 256 \<Longrightarrow> code (char_of n) = n"
  by (simp add: code_of_char of_char_of)

lemma code_toUpper:
  "code (toUpper x) = (if 97 \<le> code x \<and> code x \<le> 122 then code x - 32 else code x)"
  by (simp add: toUpper_def Let_def code_char_of)

lemma code_toLower:
  "code (toLower x) = (if 65 \<le> code x \<and> code x \<le> 90 then code x + 32 else code x)"
  by (simp add: toLower_def Let_def code_char_of)

lemma lit_ok_ci:
  "lit_ok True c x \<Longrightarrow> code (toUpper x) = code (toUpper c)"
  by (simp add: lit_ok_def)

lemma lit_colon: "lit_ok True CHR '':'' x \<Longrightarrow> x = CHR '':''"
  by (drule lit_ok_ci) (auto simp: code_toUpper split: if_splits intro!: code_inj)

lemma lit_1: "lit_ok True CHR ''1'' x \<Longrightarrow> x = CHR ''1''"
  by (drule lit_ok_ci) (auto simp: code_toUpper split: if_splits intro!: code_inj)

lemma lit_8: "lit_ok True CHR ''8'' x \<Longrightarrow> x = CHR ''8''"
  by (drule lit_ok_ci) (auto simp: code_toUpper split: if_splits intro!: code_inj)

lemma lit_0: "lit_ok True CHR ''0'' x \<Longrightarrow> x = CHR ''0''"
  by (drule lit_ok_ci) (auto simp: code_toUpper split: if_splits intro!: code_inj)

lemma lit_f: "lit_ok True CHR ''f'' x \<Longrightarrow> code x = 102 \<or> code x = 70"
  by (drule lit_ok_ci) (auto simp: code_toUpper split: if_splits)

lemma lit_e: "lit_ok True CHR ''e'' x \<Longrightarrow> code x = 101 \<or> code x = 69"
  by (drule lit_ok_ci) (auto simp: code_toUpper split: if_splits)

lemma lit_c: "lit_ok True CHR ''c'' x \<Longrightarrow> code x = 99 \<or> code x = 67"
  by (drule lit_ok_ci) (auto simp: code_toUpper split: if_splits)

lemma lit_d: "lit_ok True CHR ''d'' x \<Longrightarrow> code x = 100 \<or> code x = 68"
  by (drule lit_ok_ci) (auto simp: code_toUpper split: if_splits)

lemma cls_hex_ci:
  "cls_ok True [(48, 57), (97, 102)] x \<Longrightarrow>
   (48 \<le> code x \<and> code x \<le> 57) \<or> (97 \<le> code x \<and> code x \<le> 102) \<or> (65 \<le> code x \<and> code x \<le> 70)"
  by (auto simp: cls_ok_def Let_def in_range_def code_toUpper code_toLower split: if_splits)

lemma test_prefix:
  "test (Seq Bol r) ic a \<Longrightarrow> \<exists>u rest. a = u @ rest \<and> u \<in> lang r ic"
  using test_anchored by blast

lemma lang_str: "u \<in> lang (str p) False \<longleftrightarrow> u = p"
proof (induction p arbitrary: u)
  case Nil
  then show ?case by (simp add: str_def)
next
  case (Cons x xs)
  show ?case
  proof (cases xs)
    case Nil
    then show ?thesis by (auto simp: str_def lit_ok_def)
  next
    case (Cons y ys)
    with Cons.IH show ?thesis by (auto simp: str_def lit_ok_def)
  qed
qed

lemma lang_Grp: "w \<in> lang (Grp r) ic \<longleftrightarrow> w \<in> lang r ic"
  by simp

lemma two_fields:
  assumes "test (seqs [Bol, str p, Lit CHR ''.'', Grp r, Lit CHR ''.'']) False a"
  shows "\<exists>g rest. a = p @ CHR ''.'' # g @ CHR ''.'' # rest \<and> g \<in> lang r False"
proof -
  from assms have "test (Seq Bol (seqs [str p, Lit CHR ''.'', Grp r, Lit CHR ''.''])) False a"
    by simp
  from test_prefix [OF this] obtain u rest where
    u: "a = u @ rest" "u \<in> lang (seqs [str p, Lit CHR ''.'', Grp r, Lit CHR ''.'']) False"
    by blast
  from u(2) have "\<exists>g. u = p @ CHR ''.'' # g @ ''.'' \<and> g \<in> lang r False"
    by (simp add: lang_Seq lang_Lit lang_str lang_Grp del: lang.simps)
       (elim exE conjE, hypsubst, blast)
  then obtain g where "u = p @ CHR ''.'' # g @ ''.''" "g \<in> lang r False" by blast
  with u(1) show ?thesis by (intro exI [of _ g] exI [of _ rest]) simp
qed

lemma group_172:
  assumes "g \<in> lang (alts [seqs [Lit CHR ''1'', cls [(CHR ''6'', CHR ''9'')]],
                             seqs [Lit CHR ''2'', digit],
                             seqs [Lit CHR ''3'', cls [(CHR ''0'', CHR ''1'')]]]) False"
  shows "list_all is_digit g \<and> (\<exists>v. decimal g = Some v \<and> 16 \<le> v \<and> v \<le> 31)"
proof -
  from assms have "\<exists>x y. g = [x, y] \<and>
      ((x = CHR ''1'' \<and> 54 \<le> code y \<and> code y \<le> 57)
       \<or> (x = CHR ''2'' \<and> 48 \<le> code y \<and> code y \<le> 57)
       \<or> (x = CHR ''3'' \<and> 48 \<le> code y \<and> code y \<le> 49))"
    by (simp add: digit_def lang_Seq lang_Alt lang_Lit lang_cls1 del: lang.simps) blast
  then obtain x y where "g = [x, y]"
      "(x = CHR ''1'' \<and> 54 \<le> code y \<and> code y \<le> 57)
       \<or> (x = CHR ''2'' \<and> 48 \<le> code y \<and> code y \<le> 57)
       \<or> (x = CHR ''3'' \<and> 48 \<le> code y \<and> code y \<le> 49)" by blast
  then show ?thesis
    by (auto simp: is_digit_def decimal_def digit_val_def)
qed

lemma group_100:
  assumes "g \<in> lang (alts [seqs [Lit CHR ''6'', cls [(CHR ''4'', CHR ''9'')]],
                             seqs [cls [(CHR ''7'', CHR ''9'')], digit],
                             seqs [Lit CHR ''1'', cls [(CHR ''0'', CHR ''1'')], digit],
                             seqs [str ''12'', cls [(CHR ''0'', CHR ''7'')]]]) False"
  shows "list_all is_digit g \<and> (\<exists>v. decimal g = Some v \<and> 64 \<le> v \<and> v \<le> 127)"
proof -
  from assms consider
      (a) "g \<in> lang (seqs [Lit CHR ''6'', cls [(CHR ''4'', CHR ''9'')]]) False"
    | (b) "g \<in> lang (seqs [cls [(CHR ''7'', CHR ''9'')], digit]) False"
    | (c) "g \<in> lang (seqs [Lit CHR ''1'', cls [(CHR ''0'', CHR ''1'')], digit]) False"
    | (d) "g \<in> lang (seqs [str ''12'', cls [(CHR ''0'', CHR ''7'')]]) False"
    unfolding alts.simps lang_Alt by blast
  then show ?thesis
  proof cases
    case a
    then have "\<exists>y. g = [CHR ''6'', y] \<and> 52 \<le> code y \<and> code y \<le> 57"
      by (simp add: lang_Seq lang_Lit lang_cls1 del: lang.simps)
         (elim exE conjE, hypsubst, intro exI conjI, auto)
    then show ?thesis
      by (auto simp: is_digit_def decimal_def digit_val_def)
  next
    case b
    then have "\<exists>x y. g = [x, y] \<and> 55 \<le> code x \<and> code x \<le> 57 \<and> 48 \<le> code y \<and> code y \<le> 57"
      by (simp add: digit_def lang_Seq lang_cls1 del: lang.simps)
         (elim exE conjE, hypsubst, simp)
    then show ?thesis
      by (auto simp: is_digit_def decimal_def digit_val_def)
  next
    case c
    then have "\<exists>x y. g = [CHR ''1'', x, y] \<and> 48 \<le> code x \<and> code x \<le> 49
        \<and> 48 \<le> code y \<and> code y \<le> 57"
      by (simp add: digit_def lang_Seq lang_Lit lang_cls1 del: lang.simps)
         (elim exE conjE, hypsubst, simp)
    then show ?thesis
      by (auto simp: is_digit_def decimal_def digit_val_def)
  next
    case d
    then have "\<exists>y. g = [CHR ''1'', CHR ''2'', y] \<and> 48 \<le> code y \<and> code y \<le> 55"
      by (simp add: lang_Seq lang_str lang_cls1 del: lang.simps)
         (elim exE conjE, hypsubst, intro exI conjI, auto)
    then show ?thesis
      by (auto simp: is_digit_def decimal_def digit_val_def)
  qed
qed

lemma text_10: "test (seqs [Bol, str ''10'', Lit CHR ''.'']) False a \<Longrightarrow> v4_text a 10"
proof -
  assume "test (seqs [Bol, str ''10'', Lit CHR ''.'']) False a"
  then have "test (Seq Bol (seqs [str ''10'', Lit CHR ''.''])) False a" by simp
  from test_prefix [OF this] obtain u rest where
    u: "a = u @ rest" "u \<in> lang (seqs [str ''10'', Lit CHR ''.'']) False" by blast
  from u(2) have "u = ''10.''"
    by (simp add: str_def lang_Seq lang_Lit del: lang.simps)
  with u(1) have "a = ''10'' @ CHR ''.'' # rest" by simp
  then show ?thesis unfolding v4_text_def
    by (intro exI [of _ "''10''"] exI [of _ rest]) (simp add: is_digit_def decimal_def digit_val_def)
qed

lemma text_127: "test (seqs [Bol, str ''127'', Lit CHR ''.'']) False a \<Longrightarrow> v4_text a 127"
proof -
  assume "test (seqs [Bol, str ''127'', Lit CHR ''.'']) False a"
  then have "test (Seq Bol (seqs [str ''127'', Lit CHR ''.''])) False a" by simp
  from test_prefix [OF this] obtain u rest where
    u: "a = u @ rest" "u \<in> lang (seqs [str ''127'', Lit CHR ''.'']) False" by blast
  from u(2) have "u = ''127.''"
    by (simp add: str_def lang_Seq lang_Lit del: lang.simps)
  with u(1) have "a = ''127'' @ CHR ''.'' # rest" by simp
  then show ?thesis unfolding v4_text_def
    by (intro exI [of _ "''127''"] exI [of _ rest]) (simp add: is_digit_def decimal_def digit_val_def)
qed

lemma text_0: "test (seqs [Bol, Lit CHR ''0'', Lit CHR ''.'']) False a \<Longrightarrow> v4_text a 0"
proof -
  assume "test (seqs [Bol, Lit CHR ''0'', Lit CHR ''.'']) False a"
  then have "test (Seq Bol (seqs [Lit CHR ''0'', Lit CHR ''.''])) False a" by simp
  from test_prefix [OF this] obtain u rest where
    u: "a = u @ rest" "u \<in> lang (seqs [Lit CHR ''0'', Lit CHR ''.'']) False" by blast
  from u(2) have "u = ''0.''"
    by (simp add: lang_Seq lang_Lit del: lang.simps)
  with u(1) have "a = ''0'' @ CHR ''.'' # rest" by simp
  then show ?thesis unfolding v4_text_def
    by (intro exI [of _ "''0''"] exI [of _ rest]) (simp add: is_digit_def decimal_def digit_val_def)
qed

lemma text_192:
  "test (seqs [Bol, str ''192'', Lit CHR ''.'', str ''168'', Lit CHR ''.'']) False a \<Longrightarrow>
   v4_text2 a 192 168"
proof -
  assume "test (seqs [Bol, str ''192'', Lit CHR ''.'', str ''168'', Lit CHR ''.'']) False a"
  then have "test (Seq Bol (seqs [str ''192'', Lit CHR ''.'', str ''168'', Lit CHR ''.''])) False a"
    by simp
  from test_prefix [OF this] obtain u rest where
    u: "a = u @ rest" "u \<in> lang (seqs [str ''192'', Lit CHR ''.'', str ''168'', Lit CHR ''.'']) False"
    by blast
  from u(2) have "u = ''192.168.''"
    by (simp add: str_def lang_Seq lang_Lit del: lang.simps)
  with u(1) have "a = ''192'' @ CHR ''.'' # ''168'' @ CHR ''.'' # rest" by simp
  then show ?thesis unfolding v4_text2_def
    by (intro exI [of _ "''192''"] exI [of _ "''168''"] exI [of _ rest])
       (simp add: is_digit_def decimal_def digit_val_def)
qed

lemma text_169:
  "test (seqs [Bol, str ''169'', Lit CHR ''.'', str ''254'', Lit CHR ''.'']) False a \<Longrightarrow>
   v4_text2 a 169 254"
proof -
  assume "test (seqs [Bol, str ''169'', Lit CHR ''.'', str ''254'', Lit CHR ''.'']) False a"
  then have "test (Seq Bol (seqs [str ''169'', Lit CHR ''.'', str ''254'', Lit CHR ''.''])) False a"
    by simp
  from test_prefix [OF this] obtain u rest where
    u: "a = u @ rest" "u \<in> lang (seqs [str ''169'', Lit CHR ''.'', str ''254'', Lit CHR ''.'']) False"
    by blast
  from u(2) have "u = ''169.254.''"
    by (simp add: str_def lang_Seq lang_Lit del: lang.simps)
  with u(1) have "a = ''169'' @ CHR ''.'' # ''254'' @ CHR ''.'' # rest" by simp
  then show ?thesis unfolding v4_text2_def
    by (intro exI [of _ "''169''"] exI [of _ "''254''"] exI [of _ rest])
       (simp add: is_digit_def decimal_def digit_val_def)
qed

lemma text_172:
  assumes "test (seqs [Bol, str ''172'', Lit CHR ''.'',
            Grp (alts [seqs [Lit CHR ''1'', cls [(CHR ''6'', CHR ''9'')]],
                       seqs [Lit CHR ''2'', digit],
                       seqs [Lit CHR ''3'', cls [(CHR ''0'', CHR ''1'')]]]),
            Lit CHR ''.'']) False a"
  shows "\<exists>v. v4_text2 a 172 v \<and> 16 \<le> v \<and> v \<le> 31"
proof -
  from two_fields [OF assms] obtain g rest where
    g: "a = ''172'' @ CHR ''.'' # g @ CHR ''.'' # rest"
       "g \<in> lang (alts [seqs [Lit CHR ''1'', cls [(CHR ''6'', CHR ''9'')]],
                       seqs [Lit CHR ''2'', digit],
                       seqs [Lit CHR ''3'', cls [(CHR ''0'', CHR ''1'')]]]) False" by blast
  from group_172 [OF g(2)] obtain v where
    v: "list_all is_digit g" "decimal g = Some v" "16 \<le> v" "v \<le> 31" by blast
  from g(1) v(1,2) have "v4_text2 a 172 v" unfolding v4_text2_def
    by (intro exI [of _ "''172''"] exI [of _ g] exI [of _ rest])
       (simp add: is_digit_def decimal_def digit_val_def)
  with v(3,4) show ?thesis by blast
qed

lemma text_100:
  assumes "test (seqs [Bol, str ''100'', Lit CHR ''.'',
            Grp (alts [seqs [Lit CHR ''6'', cls [(CHR ''4'', CHR ''9'')]],
                       seqs [cls [(CHR ''7'', CHR ''9'')], digit],
                       seqs [Lit CHR ''1'', cls [(CHR ''0'', CHR ''1'')], digit],
                       seqs [str ''12'', cls [(CHR ''0'', CHR ''7'')]]]),
            Lit CHR ''.'']) False a"
  shows "\<exists>v. v4_text2 a 100 v \<and> 64 \<le> v \<and> v \<le> 127"
proof -
  from two_fields [OF assms] obtain g rest where
    g: "a = ''100'' @ CHR ''.'' # g @ CHR ''.'' # rest"
       "g \<in> lang (alts [seqs [Lit CHR ''6'', cls [(CHR ''4'', CHR ''9'')]],
                       seqs [cls [(CHR ''7'', CHR ''9'')], digit],
                       seqs [Lit CHR ''1'', cls [(CHR ''0'', CHR ''1'')], digit],
                       seqs [str ''12'', cls [(CHR ''0'', CHR ''7'')]]]) False" by blast
  from group_100 [OF g(2)] obtain v where
    v: "list_all is_digit g" "decimal g = Some v" "64 \<le> v" "v \<le> 127" by blast
  from g(1) v(1,2) have "v4_text2 a 100 v" unfolding v4_text2_def
    by (intro exI [of _ "''100''"] exI [of _ g] exI [of _ rest])
       (simp add: is_digit_def decimal_def digit_val_def)
  with v(3,4) show ?thesis by blast
qed

lemma private_v4_text:
  assumes "list_ex (\<lambda>r. test r False a) privateRanges"
  shows "v4_text a 10 \<or> v4_text a 127 \<or> v4_text a 0 \<or> v4_text2 a 192 168 \<or> v4_text2 a 169 254
         \<or> (\<exists>v. v4_text2 a 172 v \<and> 16 \<le> v \<and> v \<le> 31)
         \<or> (\<exists>v. v4_text2 a 100 v \<and> 64 \<le> v \<and> v \<le> 127)"
proof -
  from assms consider
      "test (seqs [Bol, str ''10'', Lit CHR ''.'']) False a"
    | "test (seqs [Bol, str ''172'', Lit CHR ''.'',
            Grp (alts [seqs [Lit CHR ''1'', cls [(CHR ''6'', CHR ''9'')]],
                       seqs [Lit CHR ''2'', digit],
                       seqs [Lit CHR ''3'', cls [(CHR ''0'', CHR ''1'')]]]),
            Lit CHR ''.'']) False a"
    | "test (seqs [Bol, str ''192'', Lit CHR ''.'', str ''168'', Lit CHR ''.'']) False a"
    | "test (seqs [Bol, str ''127'', Lit CHR ''.'']) False a"
    | "test (seqs [Bol, str ''169'', Lit CHR ''.'', str ''254'', Lit CHR ''.'']) False a"
    | "test (seqs [Bol, Lit CHR ''0'', Lit CHR ''.'']) False a"
    | "test (seqs [Bol, str ''100'', Lit CHR ''.'',
            Grp (alts [seqs [Lit CHR ''6'', cls [(CHR ''4'', CHR ''9'')]],
                       seqs [cls [(CHR ''7'', CHR ''9'')], digit],
                       seqs [Lit CHR ''1'', cls [(CHR ''0'', CHR ''1'')], digit],
                       seqs [str ''12'', cls [(CHR ''0'', CHR ''7'')]]]),
            Lit CHR ''.'']) False a"
    unfolding privateRanges_def list_ex_iff by (simp only: set_simps) blast
  then show ?thesis
  proof cases
    case 1 from text_10 [OF this] show ?thesis by blast
  next
    case 2 from text_172 [OF this] show ?thesis by blast
  next
    case 3 from text_192 [OF this] show ?thesis by blast
  next
    case 4 from text_127 [OF this] show ?thesis by blast
  next
    case 5 from text_169 [OF this] show ?thesis by blast
  next
    case 6 from text_0 [OF this] show ?thesis by blast
  next
    case 7 from text_100 [OF this] show ?thesis by blast
  qed
qed

lemma documented_v4I:
  "quad a = Some q \<Longrightarrow> in_block 32 (ipv4_number q) (ipv4_number b) len \<Longrightarrow>
   (b, len) \<in> set private_blocks_v4 \<Longrightarrow> documented_private_v4 a"
  by (auto simp: documented_private_v4_def list_ex_iff)

lemma v4_private_documented:
  assumes sh: "a \<in> lang IPV4_REGEX False"
    and pr: "list_ex (\<lambda>r. test r False a) privateRanges"
  shows "documented_private_v4 a"
proof -
  from lang_IPV4 [OF sh] obtain o1 o2 o3 o4 where
    a: "a = o1 @ CHR ''.'' # o2 @ CHR ''.'' # o3 @ CHR ''.'' # o4"
    and o: "o1 \<in> lang octet False" "o2 \<in> lang octet False"
           "o3 \<in> lang octet False" "o4 \<in> lang octet False" by blast
  from lang_octet [OF o(1)] lang_octet [OF o(2)] lang_octet [OF o(3)] lang_octet [OF o(4)]
  obtain v1 v2 v3 v4 where
    d: "list_all is_digit o1" "list_all is_digit o2" "list_all is_digit o3" "list_all is_digit o4"
    and v: "decimal o1 = Some v1" "decimal o2 = Some v2" "decimal o3 = Some v3" "decimal o4 = Some v4"
    and b: "v1 \<le> 255" "v2 \<le> 255" "v3 \<le> 255" "v4 \<le> 255" by blast
  have q: "quad a = Some (v1, v2, v3, v4)"
    unfolding a by (rule quad_of_fields [OF d v b])
  have one: "\<And>k. v4_text a k \<Longrightarrow> v1 = k"
  proof -
    fix k assume "v4_text a k"
    then obtain p rest where p: "a = p @ CHR ''.'' # rest" "list_all is_digit p" "decimal p = Some k"
      unfolding v4_text_def by blast
    from a p(1) have "o1 @ CHR ''.'' # o2 @ CHR ''.'' # o3 @ CHR ''.'' # o4 = p @ CHR ''.'' # rest"
      by simp
    from digits_prefix_unique [OF d(1) p(2) this] have "o1 = p" by simp
    with v(1) p(3) show "v1 = k" by simp
  qed
  have two: "\<And>k1 k2. v4_text2 a k1 k2 \<Longrightarrow> v1 = k1 \<and> v2 = k2"
  proof -
    fix k1 k2 assume "v4_text2 a k1 k2"
    then obtain p g rest where
      p: "a = p @ CHR ''.'' # g @ CHR ''.'' # rest" "list_all is_digit p" "list_all is_digit g"
         "decimal p = Some k1" "decimal g = Some k2"
      unfolding v4_text2_def by blast
    from a p(1) have "o1 @ CHR ''.'' # o2 @ CHR ''.'' # o3 @ CHR ''.'' # o4
        = p @ CHR ''.'' # g @ CHR ''.'' # rest" by simp
    from digits_prefix_unique [OF d(1) p(2) this]
    have e1: "o1 = p" and r: "o2 @ CHR ''.'' # o3 @ CHR ''.'' # o4 = g @ CHR ''.'' # rest" by simp_all
    from digits_prefix_unique [OF d(2) p(3) r] have "o2 = g" by simp
    with e1 v(1,2) p(4,5) show "v1 = k1 \<and> v2 = k2" by simp
  qed
  from private_v4_text [OF pr] consider
      "v4_text a 10" | "v4_text a 127" | "v4_text a 0" | "v4_text2 a 192 168" | "v4_text2 a 169 254"
    | v where "v4_text2 a 172 v" "16 \<le> v" "v \<le> 31"
    | v where "v4_text2 a 100 v" "64 \<le> v" "v \<le> 127" by blast
  then show ?thesis
  proof cases
    case 1
    with one have e: "v1 = 10" by blast
    have "in_block 32 (ipv4_number (v1, v2, v3, v4)) (ipv4_number (10, 0, 0, 0)) 8"
      unfolding e by (rule block8 [OF b(2,3,4)])
    with q show ?thesis
      by (rule documented_v4I)
         (simp add: private_blocks_v4_def)
  next
    case 2
    with one have e: "v1 = 127" by blast
    have "in_block 32 (ipv4_number (v1, v2, v3, v4)) (ipv4_number (127, 0, 0, 0)) 8"
      unfolding e by (rule block8 [OF b(2,3,4)])
    with q show ?thesis
      by (rule documented_v4I)
         (simp add: private_blocks_v4_def)
  next
    case 3
    with one have e: "v1 = 0" by blast
    have "in_block 32 (ipv4_number (v1, v2, v3, v4)) (ipv4_number (0, 0, 0, 0)) 8"
      unfolding e by (rule block8 [OF b(2,3,4)])
    with q show ?thesis
      by (rule documented_v4I)
         (simp add: private_blocks_v4_def)
  next
    case 4
    with two have e: "v1 = 192" "v2 = 168" by blast+
    have "in_block 32 (ipv4_number (v1, v2, v3, v4)) (ipv4_number (192, 168, 0, 0)) 16"
      unfolding e by (rule block16 [OF b(3,4)])
    with q show ?thesis
      by (rule documented_v4I)
         (simp add: private_blocks_v4_def)
  next
    case 5
    with two have e: "v1 = 169" "v2 = 254" by blast+
    have "in_block 32 (ipv4_number (v1, v2, v3, v4)) (ipv4_number (169, 254, 0, 0)) 16"
      unfolding e by (rule block16 [OF b(3,4)])
    with q show ?thesis
      by (rule documented_v4I)
         (simp add: private_blocks_v4_def)
  next
    case 6
    with two have e: "v1 = 172" and e2: "v2 = v" by blast+
    from 6 e2 have r: "16 \<le> v2" "v2 \<le> 31" by simp_all
    have "in_block 32 (ipv4_number (v1, v2, v3, v4)) (ipv4_number (172, 16, 0, 0)) 12"
      unfolding e by (rule block12 [OF r b(3,4)])
    with q show ?thesis
      by (rule documented_v4I)
         (simp add: private_blocks_v4_def)
  next
    case 7
    with two have e: "v1 = 100" and e2: "v2 = v" by blast+
    from 7 e2 have r: "64 \<le> v2" "v2 \<le> 127" by simp_all
    have "in_block 32 (ipv4_number (v1, v2, v3, v4)) (ipv4_number (100, 64, 0, 0)) 10"
      unfolding e by (rule block10 [OF r b(3,4)])
    with q show ?thesis
      by (rule documented_v4I)
         (simp add: private_blocks_v4_def)
  qed
qed

lemma lang_cls_hex:
  "w \<in> lang (cls [(CHR ''0'', CHR ''9''), (CHR ''a'', CHR ''f''), (CHR ''A'', CHR ''F'')]) False \<Longrightarrow>
   \<exists>x. w = [x] \<and> is_hex x"
  by (auto simp: cls_def cls_ok_def in_range_def Let_def is_hex_def)

lemma lang_h4: "h \<in> lang h4 False \<Longrightarrow> list_all is_hex h"
proof -
  assume "h \<in> lang h4 False"
  then obtain ws where ws: "h = concat ws"
    "set ws \<subseteq> lang (cls [(CHR ''0'', CHR ''9''), (CHR ''a'', CHR ''f''), (CHR ''A'', CHR ''F'')]) False"
    by (auto simp: h4_def Times_def)
  from ws(2) have "\<forall>w\<in>set ws. list_all is_hex w"
    by (auto dest!: lang_cls_hex subsetD)
  with ws(1) show ?thesis by (auto simp: list_all_iff)
qed

lemma lang_h4c: "w \<in> lang h4c False \<Longrightarrow> \<exists>h. w = h @ [CHR '':''] \<and> list_all is_hex h"
proof -
  assume "w \<in> lang h4c False"
  then have "\<exists>h. w = h @ [CHR '':''] \<and> h \<in> lang h4 False"
    by (simp add: h4c_def lang_Seq lang_Lit del: lang.simps)
  with lang_h4 show ?thesis by blast
qed

lemma times_first:
  "0 < lo \<Longrightarrow> u \<in> lang (Times lo hi r) ic \<Longrightarrow> \<exists>w t. u = w @ t \<and> w \<in> lang r ic"
proof -
  assume lo: "0 < lo" and "u \<in> lang (Times lo hi r) ic"
  then obtain ws where ws: "u = concat ws" "set ws \<subseteq> lang r ic" "lo \<le> length ws"
    by (auto simp: Times_def)
  with lo obtain w ws' where "ws = w # ws'" by (cases ws) auto
  with ws show ?thesis by (intro exI [of _ w] exI [of _ "concat ws'"]) simp
qed

lemma start_times:
  assumes "0 < lo" "a \<in> lang (Seq Wb (Seq (Times lo hi h4c) r)) False"
  shows "\<exists>h t. a = h @ CHR '':'' # t \<and> list_all is_hex h"
proof -
  from assms(2) have "\<exists>u v. a = u @ v \<and> u \<in> lang (Times lo hi h4c) False"
    by (simp add: lang_Seq del: lang.simps) (simp, blast)
  then obtain u v where u: "a = u @ v" "u \<in> lang (Times lo hi h4c) False" by blast
  from times_first [OF assms(1) u(2)] obtain w t where w: "u = w @ t" "w \<in> lang h4c False" by blast
  from lang_h4c [OF w(2)] obtain h where "w = h @ [CHR '':'']" "list_all is_hex h" by blast
  with u(1) w(1) show ?thesis by (intro exI [of _ h] exI [of _ "t @ v"]) simp
qed

lemma lang_IPV6_start:
  assumes "a \<in> lang IPV6_REGEX False"
  shows "(\<exists>h t. a = h @ CHR '':'' # t \<and> list_all is_hex h) \<or> (\<exists>t. a = CHR '':'' # t)"
proof -
  from assms consider
      (times) lo hi r where "0 < lo" "a \<in> lang (Seq Wb (Seq (Times lo hi h4c) r)) False"
    | (single) r where "a \<in> lang (Seq Wb (Seq h4 (Seq (Lit CHR '':'') r))) False"
    | (colon) r where "a \<in> lang (Seq Wb (Seq (Lit CHR '':'') r)) False"
    | (colons) r where "a \<in> lang (Seq Wb (Seq (str ''::'') r)) False"
    unfolding IPV6_REGEX_def alts.simps seqs.simps lang_Alt
    by (elim disjE) (blast intro: zero_less_numeral zero_less_one)+
  then show ?thesis
  proof cases
    case times
    from start_times [OF this] show ?thesis by blast
  next
    case single
    then have "\<exists>h t. a = h @ CHR '':'' # t \<and> h \<in> lang h4 False"
      by (simp add: lang_Seq lang_Lit del: lang.simps) (simp, blast)
    with lang_h4 show ?thesis by blast
  next
    case colon
    then have "\<exists>t. a = CHR '':'' # t"
      by (simp add: lang_Seq lang_Lit del: lang.simps) (simp, blast)
    then show ?thesis by blast
  next
    case colons
    then have "\<exists>t. a = CHR '':'' # t"
      by (simp add: lang_Seq lang_str del: lang.simps) (simp, blast)
    then show ?thesis by blast
  qed
qed

lemma v6_not_dotted:
  assumes "a \<in> lang IPV6_REGEX False" "a = p @ CHR ''.'' # rest" "list_all is_digit p" "p \<noteq> []"
  shows False
proof -
  have hp: "list_all is_hex p" using assms(3) by (auto simp: list_all_iff is_digit_def is_hex_def)
  have nd: "\<not> is_hex CHR ''.''" "\<not> is_hex CHR '':''" by (simp_all add: is_hex_def)
  from lang_IPV6_start [OF assms(1)] show False
  proof
    assume "\<exists>h t. a = h @ CHR '':'' # t \<and> list_all is_hex h"
    then obtain h t where h: "a = h @ CHR '':'' # t" "list_all is_hex h" by blast
    from hp nd have "takeWhile is_hex (p @ CHR ''.'' # rest) = p"
      by (simp add: list_all_iff takeWhile_append2)
    moreover from h(2) nd have "takeWhile is_hex (h @ CHR '':'' # t) = h"
      by (simp add: list_all_iff takeWhile_append2)
    ultimately have "p = h" using assms(2) h(1) by simp
    with assms(2) h(1) show False by simp
  next
    assume "\<exists>t. a = CHR '':'' # t"
    then obtain t where "a = CHR '':'' # t" by blast
    with assms(2,3,4) show False by (cases p) (auto simp: is_digit_def)
  qed
qed

lemma v4_text_dotted:
  "v4_text a k \<Longrightarrow> \<exists>p rest. a = p @ CHR ''.'' # rest \<and> list_all is_digit p \<and> p \<noteq> []"
  unfolding v4_text_def decimal_def by (metis option.distinct(1))

lemma v4_text2_dotted:
  "v4_text2 a k1 k2 \<Longrightarrow> \<exists>p rest. a = p @ CHR ''.'' # rest \<and> list_all is_digit p \<and> p \<noteq> []"
  unfolding v4_text2_def decimal_def by (metis option.distinct(1))

lemma v6_never_v4_private:
  assumes "a \<in> lang IPV6_REGEX False" "list_ex (\<lambda>r. test r False a) privateRanges"
  shows False
proof -
  from private_v4_text [OF assms(2)] v4_text_dotted v4_text2_dotted
  have "\<exists>p rest. a = p @ CHR ''.'' # rest \<and> list_all is_digit p \<and> p \<noteq> []" by blast
  with v6_not_dotted [OF assms(1)] show False by blast
qed

lemma test_whole:
  assumes "test (Seq Bol (Seq r Eol)) ic a"
  shows "a \<in> lang r ic"
proof -
  from assms obtain st' where "search (Seq Bol (Seq r Eol)) ic [] a = Some st'"
    by (auto simp: test_def)
  from search_Some [OF this] obtain l' s' where
    p: "rev l' @ s' = a" "st' \<in> set (rmatch (Seq Bol (Seq r Eol)) ic (l', s', None))" by auto
  from seq_Bol [OF p(2)] p(1) have m: "st' \<in> set (rmatch (Seq r Eol) ic ([], a, None))" by auto
  then obtain mid where mid: "mid \<in> set (rmatch r ic ([], a, None))" "st' \<in> set (rmatch Eol ic mid)"
    by auto
  from mid(2) have e: "fst (snd mid) = []" by (cases mid) (auto split: if_splits)
  from rmatch_sound [OF mid(1)] obtain u where u: "advance ([], a, None) u mid" "u \<in> lang r ic"
    by blast
  from u(1) e have "a = u" by (cases mid) auto
  with u(2) show ?thesis by simp
qed

lemma lang_Lit_ci: "u \<in> lang (Lit c) True \<longleftrightarrow> (\<exists>x. u = [x] \<and> lit_ok True c x)"
  by auto

lemma hex4:
  "hex_val x1 = Some d1 \<Longrightarrow> hex_val x2 = Some d2 \<Longrightarrow> hex_val x3 = Some d3 \<Longrightarrow> hex_val x4 = Some d4 \<Longrightarrow>
   x1 \<noteq> CHR '':'' \<Longrightarrow> x2 \<noteq> CHR '':'' \<Longrightarrow> x3 \<noteq> CHR '':'' \<Longrightarrow> x4 \<noteq> CHR '':'' \<Longrightarrow>
   first_group (x1 # x2 # x3 # x4 # CHR '':'' # rest) = Some (16 * (16 * (16 * d1 + d2) + d3) + d4)"
  by (simp add: first_group_def hexadecimal_def)

lemma private_fe80:
  assumes "test (seqs [Bol, str ''fe80:'']) True a"
  shows "documented_private_v6 a"
proof -
  from assms have "test (Seq Bol (str ''fe80:'')) True a" by simp
  from test_prefix [OF this] obtain u rest where u: "a = u @ rest" "u \<in> lang (str ''fe80:'') True"
    by blast
  from u(2) have "\<exists>x1 x2 x3 x4 x5. u = [x1, x2, x3, x4, x5] \<and> lit_ok True CHR ''f'' x1
      \<and> lit_ok True CHR ''e'' x2 \<and> lit_ok True CHR ''8'' x3 \<and> lit_ok True CHR ''0'' x4
      \<and> lit_ok True CHR '':'' x5"
    by (simp add: str_def lang_Seq lang_Lit_ci del: lang.simps) (elim exE conjE, hypsubst, simp)
  then obtain x1 x2 where x: "u = [x1, x2, CHR ''8'', CHR ''0'', CHR '':'']"
      "code x1 = 102 \<or> code x1 = 70" "code x2 = 101 \<or> code x2 = 69"
    by (auto dest: lit_f lit_e lit_8 lit_0 lit_colon)
  from x(2) have h1: "hex_val x1 = Some 15" "x1 \<noteq> CHR '':''"
    by (auto simp: hex_val_def)
  from x(3) have h2: "hex_val x2 = Some 14" "x2 \<noteq> CHR '':''"
    by (auto simp: hex_val_def)
  have h3: "hex_val CHR ''8'' = Some 8" "hex_val CHR ''0'' = Some 0"
    by (simp_all add: hex_val_def)
  from u(1) x(1) have "a = x1 # x2 # CHR ''8'' # CHR ''0'' # CHR '':'' # rest" by simp
  with hex4 [OF h1(1) h2(1) h3 h1(2) h2(2)] have "first_group a = Some 0xfe80" by simp
  then show ?thesis by (simp add: documented_private_v6_def in_block_def)
qed

lemma private_fc00:
  assumes "test (seqs [Bol, str ''fc00:'']) True a"
  shows "documented_private_v6 a"
proof -
  from assms have "test (Seq Bol (str ''fc00:'')) True a" by simp
  from test_prefix [OF this] obtain u rest where u: "a = u @ rest" "u \<in> lang (str ''fc00:'') True"
    by blast
  from u(2) have "\<exists>x1 x2 x3 x4 x5. u = [x1, x2, x3, x4, x5] \<and> lit_ok True CHR ''f'' x1
      \<and> lit_ok True CHR ''c'' x2 \<and> lit_ok True CHR ''0'' x3 \<and> lit_ok True CHR ''0'' x4
      \<and> lit_ok True CHR '':'' x5"
    by (simp add: str_def lang_Seq lang_Lit_ci del: lang.simps) (elim exE conjE, hypsubst, simp)
  then obtain x1 x2 where x: "u = [x1, x2, CHR ''0'', CHR ''0'', CHR '':'']"
      "code x1 = 102 \<or> code x1 = 70" "code x2 = 99 \<or> code x2 = 67"
    by (auto dest: lit_f lit_c lit_0 lit_colon)
  from x(2) have h1: "hex_val x1 = Some 15" "x1 \<noteq> CHR '':''"
    by (auto simp: hex_val_def)
  from x(3) have h2: "hex_val x2 = Some 12" "x2 \<noteq> CHR '':''"
    by (auto simp: hex_val_def)
  have h3: "hex_val CHR ''0'' = Some 0"
    by (simp_all add: hex_val_def)
  from u(1) x(1) have "a = x1 # x2 # CHR ''0'' # CHR ''0'' # CHR '':'' # rest" by simp
  with hex4 [OF h1(1) h2(1) h3 h3 h1(2) h2(2)] have "first_group a = Some 0xfc00" by simp
  then show ?thesis by (simp add: documented_private_v6_def in_block_def)
qed

lemma hex_ci:
  "w \<in> lang (cls [(CHR ''0'', CHR ''9''), (CHR ''a'', CHR ''f'')]) True \<Longrightarrow>
   \<exists>x d. w = [x] \<and> hex_val x = Some d \<and> d \<le> 15 \<and> x \<noteq> CHR '':''"
proof -
  assume "w \<in> lang (cls [(CHR ''0'', CHR ''9''), (CHR ''a'', CHR ''f'')]) True"
  then obtain x where x: "w = [x]" "cls_ok True [(48, 57), (97, 102)] x"
    by (auto simp: cls_def)
  from cls_hex_ci [OF x(2)] have "\<exists>d. hex_val x = Some d \<and> d \<le> 15 \<and> x \<noteq> CHR '':''"
    by (auto simp: hex_val_def)
  with x(1) show ?thesis by blast
qed

lemma private_fd:
  assumes "test (seqs [Bol, str ''fd'',
              Times 2 2 (cls [(CHR ''0'', CHR ''9''), (CHR ''a'', CHR ''f'')]), Lit CHR '':'']) True a"
  shows "documented_private_v6 a"
proof -
  let ?c = "cls [(CHR ''0'', CHR ''9''), (CHR ''a'', CHR ''f'')]"
  from assms have "test (Seq Bol (seqs [str ''fd'', Times 2 2 ?c, Lit CHR '':''])) True a" by simp
  from test_prefix [OF this] obtain u rest where
    u: "a = u @ rest" "u \<in> lang (seqs [str ''fd'', Times 2 2 ?c, Lit CHR '':'']) True" by blast
  from u(2) have "\<exists>x1 x2 y x5. u = [x1, x2] @ y @ [x5] \<and> lit_ok True CHR ''f'' x1
      \<and> lit_ok True CHR ''d'' x2 \<and> y \<in> lang (Times 2 2 ?c) True \<and> lit_ok True CHR '':'' x5"
    by (simp add: str_def lang_Seq lang_Lit_ci del: lang.simps) (elim exE conjE, hypsubst, simp)
  then obtain x1 x2 y where x: "u = [x1, x2] @ y @ [CHR '':'']"
      "code x1 = 102 \<or> code x1 = 70" "code x2 = 100 \<or> code x2 = 68"
      "y \<in> lang (Times 2 2 ?c) True"
    by (auto dest: lit_f lit_d lit_colon)
  from x(4) obtain ws where ws: "y = concat ws" "set ws \<subseteq> lang ?c True" "length ws = 2"
    by (auto simp: Times_def)
  from ws(3) obtain w1 w2 where w: "ws = [w1, w2]"
    by (auto simp: length_Suc_conv numeral_2_eq_2)
  with ws(2) have "w1 \<in> lang ?c True" "w2 \<in> lang ?c True" by simp_all
  from hex_ci [OF this(1)] hex_ci [OF this(2)] obtain y1 d1 y2 d2 where
    y: "w1 = [y1]" "hex_val y1 = Some d1" "d1 \<le> 15" "y1 \<noteq> CHR '':''"
       "w2 = [y2]" "hex_val y2 = Some d2" "d2 \<le> 15" "y2 \<noteq> CHR '':''" by blast
  from x(2) have h1: "hex_val x1 = Some 15" "x1 \<noteq> CHR '':''"
    by (auto simp: hex_val_def)
  from x(3) have h2: "hex_val x2 = Some 13" "x2 \<noteq> CHR '':''"
    by (auto simp: hex_val_def)
  from u(1) x(1) ws(1) w y(1,5) have "a = x1 # x2 # y1 # y2 # CHR '':'' # rest" by simp
  with hex4 [OF h1(1) h2(1) y(2,6) h1(2) h2(2) y(4,8)]
  have "first_group a = Some (16 * (16 * (16 * 15 + 13) + d1) + d2)" by simp
  moreover from y(3,7) have "(16 * (16 * (16 * 15 + 13) + d1) + d2) div 512 = 126" by simp
  ultimately show ?thesis by (simp add: documented_private_v6_def in_block_def)
qed

lemma private_loopback:
  assumes "test (seqs [Bol, str ''::1'', Eol]) True a"
  shows "documented_private_v6 a"
proof -
  from assms have "test (Seq Bol (Seq (str ''::1'') Eol)) True a" by simp
  from test_whole [OF this] have "a \<in> lang (str ''::1'') True" .
  then have "\<exists>x1 x2 x3. a = [x1, x2, x3] \<and> lit_ok True CHR '':'' x1
      \<and> lit_ok True CHR '':'' x2 \<and> lit_ok True CHR ''1'' x3"
    by (simp add: str_def lang_Seq lang_Lit_ci del: lang.simps) (elim exE conjE, hypsubst, simp)
  then have "a = ''::1''" by (auto dest: lit_colon lit_1)
  then show ?thesis by (simp add: documented_private_v6_def)
qed

lemma v6_private_documented:
  assumes "list_ex (\<lambda>pattern. test pattern True a) ipv6Private"
  shows "documented_private_v6 a"
proof -
  from assms consider
      "test (seqs [Bol, str ''::1'', Eol]) True a"
    | "test (seqs [Bol, str ''fe80:'']) True a"
    | "test (seqs [Bol, str ''fc00:'']) True a"
    | "test (seqs [Bol, str ''fd'',
              Times 2 2 (cls [(CHR ''0'', CHR ''9''), (CHR ''a'', CHR ''f'')]), Lit CHR '':'']) True a"
    unfolding ipv6Private_def list_ex_iff by (simp only: set_simps) blast
  then show ?thesis
  proof cases
    case 1 then show ?thesis by (rule private_loopback)
  next
    case 2 then show ?thesis by (rule private_fe80)
  next
    case 3 then show ?thesis by (rule private_fc00)
  next
    case 4 then show ?thesis by (rule private_fd)
  qed
qed

lemma private_extracted_documented:
  assumes "a \<in> set (extractIPs line)" "isPrivateIP a"
  shows "documented_private a"
proof -
  from assms(2) consider
      (v4) "list_ex (\<lambda>r. test r False a) privateRanges"
    | (v6) "list_ex (\<lambda>pattern. test pattern True a) ipv6Private"
    by (auto simp: isPrivateIP_def split: if_splits)
  then show ?thesis
  proof cases
    case v4
    from extractIPs_lang [OF assms(1)] show ?thesis
    proof
      assume "a \<in> lang IPV4_REGEX False"
      from v4_private_documented [OF this v4] show ?thesis by (simp add: documented_private_def)
    next
      assume "a \<in> lang IPV6_REGEX False"
      from v6_never_v4_private [OF this v4] show ?thesis ..
    qed
  next
    case v6
    from v6_private_documented [OF this] show ?thesis by (simp add: documented_private_def)
  qed
qed

lemma pinned_quads:
  "quad ''10.255.255.255'' = Some (10, 255, 255, 255)"
  "quad ''100.63.0.1'' = Some (100, 63, 0, 1)"
  "quad ''100.64.0.1'' = Some (100, 64, 0, 1)"
  "quad ''100.127.255.255'' = Some (100, 127, 255, 255)"
  "quad ''100.128.0.1'' = Some (100, 128, 0, 1)"
  "quad ''172.15.0.1'' = Some (172, 15, 0, 1)"
  "quad ''172.16.0.1'' = Some (172, 16, 0, 1)"
  "quad ''172.31.255.255'' = Some (172, 31, 255, 255)"
  "quad ''172.32.0.1'' = Some (172, 32, 0, 1)"
  by (simp_all add: quad_def decimal_def digit_val_def)

lemma pinned_documented:
  "map documented_private pinned = [True, False, True, True, False, False, True, True, False]"
  by (simp add: pinned_def documented_private_def documented_private_v4_def
      documented_private_v6_def pinned_quads private_blocks_v4_def in_block_def first_group_def)

lemma pinned_private:
  "map isPrivateIP pinned = [True, False, True, True, False, False, True, True, False]"
  unfolding pinned_def by code_simp

text \<open>
  C9.  \<^verbatim>\<open>isPrivateIP\<close> has the value the specification pins at each of the nine edge
  addresses, which is also the value of the documented rule table there; and for every
  line, an address that \<^verbatim>\<open>extractIPs\<close> returns and \<^verbatim>\<open>isPrivateIP\<close> classifies private lies
  in a documented range: in one of the seven IPv4 blocks when an IPv4 pattern of the table
  matched it, and in \<^verbatim>\<open>::1\<close>, fe80::/10 or fc00::/7 when an IPv6 pattern did.
\<close>

theorem isPrivateIP_rule_table:
  "map isPrivateIP pinned = [True, False, True, True, False, False, True, True, False]
   \<and> map documented_private pinned = map isPrivateIP pinned
   \<and> (\<forall>line. \<forall>a\<in>set (extractIPs line). isPrivateIP a \<longrightarrow> documented_private a)"
  using pinned_private pinned_documented private_extracted_documented by simp

text \<open>The theorem at a line that names the first address of 172.16/12.\<close>

theorem isPrivateIP_rule_table_witness:
  "''172.16.0.1'' \<in> set (extractIPs ''from 172.16.0.1'') \<and> isPrivateIP ''172.16.0.1''
   \<and> documented_private ''172.16.0.1''"
proof -
  have e: "extractIPs ''from 172.16.0.1'' = [''172.16.0.1'']" by code_simp
  have p: "isPrivateIP ''172.16.0.1''" by code_simp
  from e have m: "''172.16.0.1'' \<in> set (extractIPs ''from 172.16.0.1'')" by simp
  from isPrivateIP_rule_table
  have "\<forall>line. \<forall>a\<in>set (extractIPs line). isPrivateIP a \<longrightarrow> documented_private a" by blast
  with m p have "documented_private ''172.16.0.1''" by blast
  with m p show ?thesis by blast
qed

end
